theory Spec2Isabelle
  imports Complex_Main "HOL-Library.Word" "HOL-Library.Signed_Division" "HOL-Library.Sublist"
begin

unbundle bit_operations_syntax

section \<open>Byte and big-integer codec (src/utils/crypto.ts)\<close>

text \<open>
  A \<open>Uint8Array\<close> is a list of 8-bit words; a JavaScript \<open>bigint\<close> is an \<open>int\<close>.
  Numbers that only ever hold non-negative integers below \<open>2^53\<close> (indices, counters,
  timestamps) are \<open>nat\<close>.
\<close>

type_synonym byte = "8 word"

definition secp256k1Order :: int where
  "secp256k1Order = 0xFFFFFFFFFFFFFFFFFFFFFFFFFFFFFFFEBAAEDCE6AF48A03BBFD25E8CD0364141"

text \<open>\<open>bytesToBigInt\<close>: \<open>result = (result << 8n) + BigInt(byte)\<close> for each byte in order.\<close>

definition bytesToBigInt :: "byte list \<Rightarrow> int" where
  "bytesToBigInt bytes = foldl (\<lambda>result b. push_bit 8 result + uint b) 0 bytes"

text \<open>
  \<open>bigIntToBytes\<close>: the loop runs \<open>i\<close> from 31 down to 0, storing \<open>value & 0xFF\<close> at
  position \<open>i\<close> and shifting \<open>value\<close> right by 8. Positions are filled from the right, so
  every step puts its byte in front of the ones already written. There is no width
  argument and no \<open>throw\<close>: the array always has 32 entries.
\<close>

primrec bigIntToBytes_loop :: "nat \<Rightarrow> int \<Rightarrow> byte list \<Rightarrow> byte list" where
  "bigIntToBytes_loop 0 v bytes = bytes"
| "bigIntToBytes_loop (Suc n) v bytes =
     bigIntToBytes_loop n (drop_bit 8 v) (word_of_int (v AND 0xFF) # bytes)"

definition bigIntToBytes :: "int \<Rightarrow> byte list" where
  "bigIntToBytes v = bigIntToBytes_loop 32 v []"

section \<open>Deterministic key derivation (src/utils/bitcoin.ts)\<close>

definition MASTER_SEED :: "byte list" where
  "MASTER_SEED =
    [0x42, 0x69, 0x74, 0x63, 0x6f, 0x69, 0x6e, 0x20,
     0x4c, 0x65, 0x61, 0x6b, 0x65, 0x64, 0x20, 0x44,
     0x61, 0x74, 0x61, 0x62, 0x61, 0x73, 0x65, 0x20,
     0x32, 0x30, 0x32, 0x35, 0x00, 0x00, 0x00, 0x00]"

text \<open>
  \<open>view.setBigUint64(0, BigInt(index), false)\<close>: the eight bytes of \<open>index\<close> modulo
  \<open>2^64\<close>, most significant first.
\<close>

definition indexArray :: "nat \<Rightarrow> byte list" where
  "indexArray index =
     map (\<lambda>k. ucast (drop_bit (8 * (7 - k)) (of_nat index :: 64 word))) [0..<8]"

text \<open>
  The mixing loop of \<open>generateFixedPrivateKeyFromIndex\<close>. The three operands are in
  \<open>0..255\<close>, so their XOR is too and the trailing \<open>% 256\<close> changes nothing.
\<close>

definition mixByte :: "nat \<Rightarrow> nat \<Rightarrow> byte" where
  "mixByte index i =
     (let seedByte = MASTER_SEED ! (i mod length MASTER_SEED);
          indexByte = indexArray index ! (i mod 8);
          positionByte = (of_nat ((index + i) mod 256) :: byte)
      in seedByte XOR indexByte XOR positionByte)"

definition candidateKey :: "nat \<Rightarrow> byte list" where
  "candidateKey index = map (mixByte index) [0..<32]"

text \<open>
  \<open>ensureValidPrivateKeySync\<close>. The bound is the constant the function itself declares,
  \<open>maxKey\<close>, which ends in \<open>...4140\<close>. The \<open>while\<close> loop is bounded by \<open>attempts < 10\<close>;
  \<open>fuel\<close> counts the attempts that remain. All the big integers here are non-negative,
  where \<open>%\<close> and \<open>mod\<close> agree.
\<close>

definition maxKey :: int where
  "maxKey = 0xFFFFFFFFFFFFFFFFFFFFFFFFFFFFFFFEBAAEDCE6AF48A03BBFD25E8CD0364140"

definition keyInvalid :: "int \<Rightarrow> bool" where
  "keyInvalid keyBigInt = (keyBigInt \<ge> maxKey \<or> keyBigInt = 0)"

definition correctOnce :: "int \<Rightarrow> nat \<Rightarrow> nat \<Rightarrow> int" where
  "correctOnce keyBigInt index attempts =
     (let k = (keyBigInt XOR int (index + attempts * 1337)) mod maxKey
      in if k = 0 then int (index + 1) else k)"

primrec correctionLoop :: "nat \<Rightarrow> int \<Rightarrow> nat \<Rightarrow> nat \<Rightarrow> int" where
  "correctionLoop 0 keyBigInt index attempts = keyBigInt"
| "correctionLoop (Suc fuel) keyBigInt index attempts =
     (if keyInvalid keyBigInt
      then correctionLoop fuel (correctOnce keyBigInt index attempts) index (attempts + 1)
      else keyBigInt)"

definition ensureValidPrivateKeySync :: "byte list \<Rightarrow> nat \<Rightarrow> byte list" where
  "ensureValidPrivateKeySync seed index =
     bigIntToBytes (correctionLoop 10 (bytesToBigInt seed) index 0)"

definition generateFixedPrivateKeyFromIndex :: "nat \<Rightarrow> byte list" where
  "generateFixedPrivateKeyFromIndex index = ensureValidPrivateKeySync (candidateKey index) index"





section \<open>Base58 (src/utils/base58.ts)\<close>

text \<open>
  Every \<open>throw\<close> of the modelled code is a value of \<open>error\<close>: the invalid character of
  \<open>Base58.decode\<close>, the \<open>RangeError\<close> of \<open>Uint8Array.set\<close> when the source does not fit,
  and the failed witness conversion of \<open>deriveAddresses\<close>. \<open>NoReturn\<close> is not a
  \<open>throw\<close>: it marks a call that would loop forever.
\<close>

datatype error = InvalidBase58Character | RangeError | ConvertFailed | NoReturn

definition BASE58_ALPHABET :: string where
  "BASE58_ALPHABET = ''123456789ABCDEFGHJKLMNPQRSTUVWXYZabcdefghijkmnopqrstuvwxyz''"

text \<open>\<open>String.indexOf\<close> for one character; \<open>None\<close> stands for \<open>-1\<close>.\<close>

fun indexOf :: "string \<Rightarrow> char \<Rightarrow> nat option" where
  "indexOf [] c = None"
| "indexOf (x # xs) c = (if x = c then Some 0 else map_option Suc (indexOf xs c))"

text \<open>
  \<open>Base58.encode\<close>: the bytes are folded into a big integer
  (\<open>num = num * 256n + BigInt(byte)\<close>), the integer is divided by 58 while it is positive,
  each remainder's character going in front of \<open>encoded\<close>, and then one \<open>'1'\<close> is put in
  front for every zero byte up to the first non-zero one.
\<close>

definition bytesToNum :: "byte list \<Rightarrow> nat" where
  "bytesToNum bytes = foldl (\<lambda>num b. num * 256 + unat b) 0 bytes"

function encodeDigits :: "nat \<Rightarrow> string \<Rightarrow> string" where
  "encodeDigits num encoded =
     (if num > 0
      then encodeDigits (num div 58) (BASE58_ALPHABET ! (num mod 58) # encoded)
      else encoded)"
  by pat_completeness auto
termination
  by (relation "measure fst") auto

fun leadingOnes :: "byte list \<Rightarrow> string \<Rightarrow> string" where
  "leadingOnes [] encoded = encoded"
| "leadingOnes (b # bs) encoded = (if b = 0 then leadingOnes bs (CHR ''1'' # encoded) else encoded)"

definition Base58_encode :: "byte list \<Rightarrow> string" where
  "Base58_encode bytes =
     (if length bytes = 0 then []
      else leadingOnes bytes (encodeDigits (bytesToNum bytes) []))"

text \<open>
  \<open>Base58.decode\<close>: the characters are folded into a big integer, an unknown character
  throws; the integer is divided by 256 while it is positive, each remainder being
  unshifted; then one zero byte is unshifted for every \<open>'1'\<close> up to the first other
  character.
\<close>

fun decodeNum :: "string \<Rightarrow> nat \<Rightarrow> error + nat" where
  "decodeNum [] num = Inr num"
| "decodeNum (c # cs) num =
     (case indexOf BASE58_ALPHABET c of
        None \<Rightarrow> Inl InvalidBase58Character
      | Some i \<Rightarrow> decodeNum cs (num * 58 + i))"

function decodeBytes :: "nat \<Rightarrow> byte list \<Rightarrow> byte list" where
  "decodeBytes num bytes =
     (if num > 0 then decodeBytes (num div 256) (of_nat (num mod 256) # bytes) else bytes)"
  by pat_completeness auto
termination
  by (relation "measure fst") auto

fun leadingZeros :: "string \<Rightarrow> byte list \<Rightarrow> byte list" where
  "leadingZeros [] bytes = bytes"
| "leadingZeros (c # cs) bytes = (if c = CHR ''1'' then leadingZeros cs (0 # bytes) else bytes)"

definition Base58_decode :: "string \<Rightarrow> error + byte list" where
  "Base58_decode str =
     (if length str = 0 then Inr []
      else case decodeNum str 0 of
             Inl e \<Rightarrow> Inl e
           | Inr num \<Rightarrow> Inr (leadingZeros str (decodeBytes num [])))"

section \<open>Hash primitives and the placeholder public key (src/utils/crypto.ts)\<close>

text \<open>
  \<open>BitcoinCrypto.sha256\<close> hands its input to the platform's \<open>crypto.subtle.digest\<close>, which
  is not code of this repository. Every function that hashes takes the digest as its
  first argument \<open>sha256\<close>; nothing is assumed about it.
\<close>

type_synonym digest = "byte list \<Rightarrow> byte list"

definition doubleSha256 :: "digest \<Rightarrow> byte list \<Rightarrow> byte list" where
  "doubleSha256 sha256 data = (let firstHash = sha256 data in sha256 firstHash)"

text \<open>
  Reading a typed array past its end gives \<open>undefined\<close>, which the bitwise operators take
  for 0.
\<close>

definition byteAt :: "byte list \<Rightarrow> nat \<Rightarrow> byte" where
  "byteAt xs i = (if i < length xs then xs ! i else 0)"

text \<open>
  \<open>ripemd160\<close> is not RIPEMD-160: it hashes its input with the digest once more and folds
  the result to 20 bytes, \<open>result[i] = hash[i] ^ hash[i + 12]\<close>.
\<close>

definition ripemd160 :: "digest \<Rightarrow> byte list \<Rightarrow> byte list" where
  "ripemd160 sha256 data =
     (let hash = sha256 data in map (\<lambda>i. byteAt hash i XOR byteAt hash (i + 12)) [0..<20])"

text \<open>
  \<open>simulateSecp256k1PublicKey\<close>. The rolling hash is kept in 32 bits by \<open>& 0xffffffff\<close>,
  which also makes it a signed value; \<open>seed % 256\<close> is JavaScript's remainder, with the
  sign of \<open>seed\<close>.
\<close>

definition rollingHash :: "byte list \<Rightarrow> 32 word" where
  "rollingHash privateKey = foldl (\<lambda>hash b. push_bit 5 hash - hash + ucast b) 0 privateKey"

definition simulateSecp256k1PublicKey :: "byte list \<Rightarrow> byte list" where
  "simulateSecp256k1PublicKey privateKey =
     (let hash = rollingHash privateKey
      in 0x02 #
         map (\<lambda>i. let seed = hash + of_nat (i * 1337)
                  in ucast ((ucast (byteAt privateKey i) XOR
                             (word_of_int (sint seed smod 256) :: 32 word)) AND 0xff))
           [0..<32])"

definition getPublicKey :: "byte list \<Rightarrow> byte list" where
  "getPublicKey privateKey = simulateSecp256k1PublicKey privateKey"

text \<open>\<open>bytesToHex\<close>: \<open>byte.toString(16).padStart(2, '0')\<close>, joined.\<close>

definition hexDigit :: "nat \<Rightarrow> char" where
  "hexDigit d = ''0123456789abcdef'' ! d"

definition byteToHex :: "byte \<Rightarrow> string" where
  "byteToHex b = [hexDigit (unat b div 16), hexDigit (unat b mod 16)]"

definition bytesToHex :: "byte list \<Rightarrow> string" where
  "bytesToHex bytes = concat (map byteToHex bytes)"

section \<open>Typed arrays and Base58Check (src/utils/base58.ts)\<close>

text \<open>
  \<open>Uint8Array.prototype.set(source, offset)\<close> throws a \<open>RangeError\<close> when the source does
  not fit behind the offset.
\<close>

definition u8set :: "byte list \<Rightarrow> byte list \<Rightarrow> nat \<Rightarrow> error + byte list" where
  "u8set target source offset =
     (if offset + length source > length target then Inl RangeError
      else Inr (take offset target @ source @ drop (offset + length source) target))"

definition andThen :: "error + 'a \<Rightarrow> ('a \<Rightarrow> error + 'b) \<Rightarrow> error + 'b" where
  "andThen r f = (case r of Inl e \<Rightarrow> Inl e | Inr v \<Rightarrow> f v)"

definition encodeCheck :: "digest \<Rightarrow> byte list \<Rightarrow> error + string" where
  "encodeCheck sha256 bytes =
     (let hash = doubleSha256 sha256 bytes;
          checksum = take 4 hash;
          payload = replicate (length bytes + 4) 0
      in andThen (u8set payload bytes 0) (\<lambda>payload.
         andThen (u8set payload checksum (length bytes)) (\<lambda>payload.
         Inr (Base58_encode payload))))"

section \<open>Bech32 (the module imported as ./bech32; src/unnamed/part_001)\<close>

text \<open>
  The values are JavaScript numbers holding integers (\<open>int\<close>); the bitwise operators work
  on their 32-bit two's complement (\<open>32 word\<close>), shift by the count modulo 32, and \<open>>>\<close>
  keeps the sign.
\<close>

definition BECH32_ALPHABET :: string where
  "BECH32_ALPHABET = ''qpzry9x8gf2tvdw0s3jn54khce6mua7l''"

definition GEN :: "32 word list" where
  "GEN = [0x3b6a57b2, 0x26508e6d, 0x1ea119fa, 0x3d4233dd, 0x2a1462b3]"

definition polymodStep :: "32 word \<Rightarrow> int \<Rightarrow> 32 word" where
  "polymodStep chk v =
     (let top = signed_drop_bit 25 chk;
          chk1 = push_bit 5 (chk AND 0x1ffffff) XOR word_of_int v
      in foldl (\<lambda>c i. c XOR (if signed_drop_bit i top AND 1 \<noteq> 0 then GEN ! i else 0))
           chk1 [0..<5])"

definition polymod :: "int list \<Rightarrow> 32 word" where
  "polymod values = foldl polymodStep 1 values"

definition hrpExpand :: "string \<Rightarrow> int list" where
  "hrpExpand hrp =
     map (\<lambda>c. int (of_char c div 32)) hrp @ [0] @ map (\<lambda>c. int (of_char c mod 32)) hrp"

definition createChecksum :: "string \<Rightarrow> int list \<Rightarrow> int list" where
  "createChecksum hrp data =
     (let values = hrpExpand hrp @ data @ [0, 0, 0, 0, 0, 0];
          md = polymod values XOR 1
      in map (\<lambda>i. sint (signed_drop_bit (5 * (5 - i)) md AND 31)) [0..<6])"

text \<open>
  \<open>result += BECH32_ALPHABET[d]\<close>: outside \<open>0..31\<close> the lookup is \<open>undefined\<close>, and the
  string \<open>"undefined"\<close> is appended.
\<close>

definition alphabetChar :: "int \<Rightarrow> string" where
  "alphabetChar d =
     (if 0 \<le> d \<and> d < 32 then [BECH32_ALPHABET ! nat d] else ''undefined'')"

definition Bech32_encode :: "string \<Rightarrow> int list \<Rightarrow> string" where
  "Bech32_encode hrp data =
     (let checksum = createChecksum hrp data;
          combined = data @ checksum
      in foldl (\<lambda>result d. result @ alphabetChar d) (hrp @ ''1'') combined)"

text \<open>
  \<open>convertBits\<close>. The inner \<open>while (bits >= toBits)\<close> loop never ends when \<open>toBits\<close> is 0,
  so it is a partial function: \<open>None\<close> is "does not return". \<open>convertBits\<close> reports that
  as \<open>Inl NoReturn\<close>; \<open>Inr None\<close> is the \<open>null\<close> it returns for bad input.
\<close>

partial_function (option) regroup ::
    "nat \<Rightarrow> 32 word \<Rightarrow> 32 word \<Rightarrow> nat \<Rightarrow> int list \<Rightarrow> (nat \<times> int list) option" where
  "regroup toBits maxv acc bits result =
     (if bits \<ge> toBits
      then regroup toBits maxv acc (bits - toBits)
             (result @ [sint (signed_drop_bit ((bits - toBits) mod 32) acc AND maxv)])
      else Some (bits, result))"

declare regroup.simps [code]

fun convertLoop ::
    "nat \<Rightarrow> nat \<Rightarrow> 32 word \<Rightarrow> int list \<Rightarrow> 32 word \<Rightarrow> nat \<Rightarrow> int list
      \<Rightarrow> error + (32 word \<times> nat \<times> int list) option" where
  "convertLoop fromBits toBits maxv [] acc bits result = Inr (Some (acc, bits, result))"
| "convertLoop fromBits toBits maxv (v # data) acc bits result =
     (if v < 0 \<or> signed_drop_bit (fromBits mod 32) (word_of_int v :: 32 word) \<noteq> 0
      then Inr None
      else let acc = push_bit (fromBits mod 32) acc OR word_of_int v
           in case regroup toBits maxv acc (bits + fromBits) result of
                None \<Rightarrow> Inl NoReturn
              | Some (bits, result) \<Rightarrow> convertLoop fromBits toBits maxv data acc bits result)"

definition convertBits :: "int list \<Rightarrow> nat \<Rightarrow> nat \<Rightarrow> bool \<Rightarrow> error + int list option" where
  "convertBits data fromBits toBits pad =
     (let maxv = push_bit (toBits mod 32) 1 - 1
      in andThen (convertLoop fromBits toBits maxv data 0 0 []) (\<lambda>r.
           case r of
             None \<Rightarrow> Inr None
           | Some (acc, bits, result) \<Rightarrow>
               let rest = push_bit ((toBits - bits) mod 32) acc AND maxv
               in if pad
                  then Inr (Some (if bits \<noteq> 0 then result @ [sint rest] else result))
                  else if bits \<ge> fromBits \<or> rest \<noteq> 0 then Inr None
                  else Inr (Some result)))"

section \<open>Key records and address derivation (src/utils/bitcoin.ts)\<close>

record Addresses =
  legacy :: string
  segwit :: string
  nativeSegwit :: string

text \<open>
  A balance is \<open>number | null\<close>: \<open>None\<close> is \<open>null\<close>. The fields of \<open>balances\<close> have the
  names of \<open>addresses\<close> in the source; here they end in \<open>Balance\<close>, and the field \<open>id\<close> of
  the record is \<open>key_id\<close>, since \<open>id\<close> is the identity function.
\<close>

record Balances =
  legacyBalance :: "real option"
  segwitBalance :: "real option"
  nativeSegwitBalance :: "real option"

record BitcoinKey =
  key_id :: string
  privateKeyHex :: string
  privateKeyWIF :: string
  publicKey :: string
  addresses :: Addresses
  balances :: Balances
  timestamp :: nat
  index :: nat

text \<open>
  \<open>deriveAddresses\<close>. The payload arrays are allocated zero-filled with their fixed
  lengths, the marker bytes are stored by index and the hashes are copied in with
  \<open>set\<close>. \<open>pubKeyHash\<close> is computed once, at the top, and is the only hash of the public
  key the function takes. A local whose name is also a field of the record carries a
  prime.
\<close>

definition deriveAddresses :: "digest \<Rightarrow> byte list \<Rightarrow> error + Addresses" where
  "deriveAddresses sha256 publicKey' =
     (let pubKeyHash = ripemd160 sha256 (sha256 publicKey');
          legacyPayload = (replicate 21 0)[0 := 0x00]
      in andThen (u8set legacyPayload pubKeyHash 1) (\<lambda>legacyPayload.
         andThen (encodeCheck sha256 legacyPayload) (\<lambda>legacy'.
         let redeemScript = (replicate 22 0)[0 := 0x00, 1 := 0x14]
         in andThen (u8set redeemScript pubKeyHash 2) (\<lambda>redeemScript.
            let scriptHash = ripemd160 sha256 (sha256 redeemScript);
                segwitPayload = (replicate 21 0)[0 := 0x05]
            in andThen (u8set segwitPayload scriptHash 1) (\<lambda>segwitPayload.
               andThen (encodeCheck sha256 segwitPayload) (\<lambda>segwit'.
               let witnessVersion = 0;
                   witnessProgram = map uint pubKeyHash
               in andThen (convertBits witnessProgram 8 5 True) (\<lambda>converted.
                  case converted of
                    None \<Rightarrow> Inl ConvertFailed
                  | Some converted \<Rightarrow>
                      Inr \<lparr>legacy = legacy', segwit = segwit',
                           nativeSegwit = Bech32_encode ''bc'' ([witnessVersion] @ converted)\<rparr>)))))))"

definition privateKeyToWIF :: "digest \<Rightarrow> byte list \<Rightarrow> error + string" where
  "privateKeyToWIF sha256 privateKey =
     (let extended = (replicate 34 0)[0 := 0x80]
      in andThen (u8set extended privateKey 1) (\<lambda>extended.
         let extended = extended[33 := 0x01]
         in encodeCheck sha256 extended))"

text \<open>
  The template literal \<open>`key-${n}`\<close>. For a non-negative integer below \<open>2^53\<close>, where
  every integer is a number of its own, it prints the decimal digits without leading
  zeros, and that is what \<open>numberToString\<close> computes. Above \<open>2^53\<close> the template literal
  prints the shortest digits that read back as the same number, and from \<open>10^21\<close> on an
  exponent; \<open>numberToString\<close> is not the code there, and the theorems of the claims
  keep the numbers they print below \<open>2^53\<close>.
\<close>

definition digitChar :: "nat \<Rightarrow> char" where
  "digitChar d = ''0123456789'' ! d"

function numberToString :: "nat \<Rightarrow> string" where
  "numberToString n =
     (if n < 10 then [digitChar n] else numberToString (n div 10) @ [digitChar (n mod 10)])"
  by pat_completeness auto
termination
  by (relation "measure id") auto

text \<open>Reading a decimal string back; the proofs use it as the inverse of \<open>numberToString\<close>.\<close>

definition parseDigits :: "string \<Rightarrow> nat" where
  "parseDigits s = foldl (\<lambda>a c. a * 10 + (of_char c - 48)) 0 s"

text \<open>
  \<open>generateKeyFromPrivateKey\<close>. \<open>now\<close> is the reading of \<open>Date.now()\<close> when the record is
  built.
\<close>

definition generateKeyFromPrivateKey ::
    "digest \<Rightarrow> nat \<Rightarrow> byte list \<Rightarrow> nat \<Rightarrow> error + BitcoinKey" where
  "generateKeyFromPrivateKey sha256 now privateKey indexOrTimestamp =
     (let publicKey' = getPublicKey privateKey;
          privateKeyHex' = bytesToHex privateKey
      in andThen (privateKeyToWIF sha256 privateKey) (\<lambda>privateKeyWIF'.
         let publicKeyHex = bytesToHex publicKey'
         in andThen (deriveAddresses sha256 publicKey') (\<lambda>addresses'.
            let isIndex = indexOrTimestamp < 1000000000000
            in Inr \<lparr>key_id = ''key-'' @ numberToString indexOrTimestamp,
                    privateKeyHex = privateKeyHex',
                    privateKeyWIF = privateKeyWIF',
                    publicKey = publicKeyHex,
                    addresses = addresses',
                    balances = \<lparr>legacyBalance = None, segwitBalance = None,
                                  nativeSegwitBalance = None\<rparr>,
                    timestamp = (if isIndex then now else indexOrTimestamp),
                    index = (if isIndex then indexOrTimestamp else 0)\<rparr>)))"

section \<open>The materialization controller (the useInfiniteKeys hook; src/unnamed/part_002)\<close>

text \<open>
  \<open>generateKeyAtIndex\<close>: the fixed private key of the index, then the record.
\<close>

definition generateKeyAtIndex :: "digest \<Rightarrow> nat \<Rightarrow> nat \<Rightarrow> error + BitcoinKey" where
  "generateKeyAtIndex sha256 now keyIndex =
     (let privateKey = generateFixedPrivateKeyFromIndex keyIndex
      in generateKeyFromPrivateKey sha256 now privateKey keyIndex)"

text \<open>
  The hook's state that \<open>loadMore\<close> reads and writes: the \<open>keys\<close> list, the \<open>loading\<close> flag,
  the cursor \<open>currentIndex\<close> and the set \<open>generatedKeyIds\<close>.
\<close>

record KeysState =
  keys :: "BitcoinKey list"
  loading :: bool
  currentIndex :: nat
  generatedKeyIds :: "string set"

definition BATCH_SIZE :: nat where
  "BATCH_SIZE = 50"

definition initialKeysState :: KeysState where
  "initialKeysState = \<lparr>keys = [], loading = False, currentIndex = 0, generatedKeyIds = {}\<rparr>"

text \<open>
  \<open>generateKeys\<close>: the \<open>for\<close> loop over \<open>i = 0 .. count - 1\<close>. An id already in
  \<open>generatedKeyIds\<close> is skipped; a derivation that throws is logged and skipped too.
  \<open>clock k\<close> is the reading of \<open>Date.now()\<close> while the record of index \<open>k\<close> is built. The
  waiting for the rate limit changes no value and is left out.
\<close>

fun generateKeysLoop ::
    "digest \<Rightarrow> (nat \<Rightarrow> nat) \<Rightarrow> nat \<Rightarrow> nat list \<Rightarrow> string set \<Rightarrow> BitcoinKey list
      \<Rightarrow> string set \<times> BitcoinKey list" where
  "generateKeysLoop sha256 clock startIndex [] ids newKeys = (ids, newKeys)"
| "generateKeysLoop sha256 clock startIndex (i # rest) ids newKeys =
     (let keyIndex = startIndex + i;
          keyId = ''key-'' @ numberToString keyIndex
      in if keyId \<in> ids then generateKeysLoop sha256 clock startIndex rest ids newKeys
         else case generateKeyAtIndex sha256 (clock keyIndex) keyIndex of
                Inl e \<Rightarrow> generateKeysLoop sha256 clock startIndex rest ids newKeys
              | Inr key \<Rightarrow>
                  generateKeysLoop sha256 clock startIndex rest
                    (insert (key_id key) ids) (newKeys @ [key]))"

definition generateKeys ::
    "digest \<Rightarrow> (nat \<Rightarrow> nat) \<Rightarrow> string set \<Rightarrow> nat \<Rightarrow> nat \<Rightarrow> string set \<times> BitcoinKey list" where
  "generateKeys sha256 clock ids startIndex count =
     generateKeysLoop sha256 clock startIndex [0..<count] ids []"

text \<open>
  \<open>loadMore\<close>, run to completion: a call made while \<open>loading\<close> is set returns at once;
  otherwise the new records that are not yet in \<open>keys\<close> are appended, the cursor moves by
  \<open>BATCH_SIZE\<close> and \<open>loading\<close> is cleared again.
\<close>

definition loadMore :: "digest \<Rightarrow> (nat \<Rightarrow> nat) \<Rightarrow> KeysState \<Rightarrow> KeysState" where
  "loadMore sha256 clock st =
     (if loading st then st
      else case generateKeys sha256 clock (generatedKeyIds st) (currentIndex st) BATCH_SIZE of
             (ids, newKeys) \<Rightarrow>
               let existingIds = set (map key_id (keys st));
                   uniqueNewKeys = filter (\<lambda>k. key_id k \<notin> existingIds) newKeys
               in st\<lparr>keys := keys st @ uniqueNewKeys,
                     currentIndex := currentIndex st + BATCH_SIZE,
                     generatedKeyIds := ids,
                     loading := False\<rparr>)"

section \<open>Search sessions (the useInfiniteKeys hook; src/unnamed/part_002)\<close>

text \<open>
  \<open>toLowerCase\<close> and \<open>String.includes\<close> on the ASCII strings the records hold.
\<close>

definition toLowerCase :: "string \<Rightarrow> string" where
  "toLowerCase s =
     map (\<lambda>c. let n = (of_char c :: nat) in if 65 \<le> n \<and> n \<le> 90 then char_of (n + 32) else c) s"

fun stringIncludes :: "string \<Rightarrow> string \<Rightarrow> bool" where
  "stringIncludes [] t = (t = [])"
| "stringIncludes (c # s) t = (prefix t (c # s) \<or> stringIncludes s t)"

definition keyMatches :: "string \<Rightarrow> BitcoinKey \<Rightarrow> bool" where
  "keyMatches t key =
     (stringIncludes (toLowerCase (privateKeyHex key)) t \<or>
      stringIncludes (toLowerCase (privateKeyWIF key)) t \<or>
      stringIncludes (toLowerCase (legacy (addresses key))) t \<or>
      stringIncludes (toLowerCase (segwit (addresses key))) t \<or>
      stringIncludes (toLowerCase (nativeSegwit (addresses key))) t)"

definition SEARCH_BATCH_SIZE :: nat where
  "SEARCH_BATCH_SIZE = 1000"

definition MAX_SEARCH_RESULTS :: nat where
  "MAX_SEARCH_RESULTS = 100"

text \<open>
  The \<open>for (const key of batch)\<close> loop of \<open>searchVirtualKeys\<close>. Nothing is awaited inside
  it, so \<open>signal.aborted\<close> has one value for the whole loop.
\<close>

fun scanBatch ::
    "bool \<Rightarrow> string \<Rightarrow> BitcoinKey list \<Rightarrow> string set \<times> BitcoinKey list \<times> nat
      \<Rightarrow> string set \<times> BitcoinKey list \<times> nat" where
  "scanBatch aborted t [] acc = acc"
| "scanBatch aborted t (key # batch) (foundKeyIds, results, foundCount) =
     (if aborted then (foundKeyIds, results, foundCount)
      else if key_id key \<in> foundKeyIds
      then scanBatch aborted t batch (foundKeyIds, results, foundCount)
      else if keyMatches t key
      then (if foundCount + 1 \<ge> MAX_SEARCH_RESULTS
            then (insert (key_id key) foundKeyIds, results @ [key], foundCount + 1)
            else scanBatch aborted t batch
                   (insert (key_id key) foundKeyIds, results @ [key], foundCount + 1))
      else scanBatch aborted t batch (foundKeyIds, results, foundCount))"

text \<open>
  \<open>Promise.all\<close> over the batch: the records in order, or the first rejection.
\<close>

fun promiseAll :: "(error + 'a) list \<Rightarrow> error + 'a list" where
  "promiseAll [] = Inr []"
| "promiseAll (p # ps) =
     (case p of
        Inl e \<Rightarrow> Inl e
      | Inr v \<Rightarrow> (case promiseAll ps of Inl e \<Rightarrow> Inl e | Inr vs \<Rightarrow> Inr (v # vs)))"

text \<open>
  The \<open>while\<close> loop of \<open>searchVirtualKeys\<close>. The session's signal is read twice per batch,
  once at the top of the loop and once after the batch has been awaited; \<open>aborted k\<close> is
  what the \<open>k\<close>-th reading finds (readings \<open>2 * b\<close> and \<open>2 * b + 1\<close> belong to batch
  \<open>b\<close>). A rejected batch ends the loop; the results collected so far are returned in
  every case.
\<close>

function searchVirtualLoop ::
    "digest \<Rightarrow> (nat \<Rightarrow> nat) \<Rightarrow> (nat \<Rightarrow> bool) \<Rightarrow> string \<Rightarrow> nat \<Rightarrow> nat
      \<Rightarrow> string set \<times> BitcoinKey list \<times> nat \<Rightarrow> BitcoinKey list" where
  "searchVirtualLoop sha256 clock aborted t b searchIndex (foundKeyIds, results, foundCount) =
     (if foundCount < MAX_SEARCH_RESULTS \<and> searchIndex < 100000
      then if aborted (2 * b) then results
           else let next = min (searchIndex + SEARCH_BATCH_SIZE) 100000;
                    batchPromises =
                      map (\<lambda>i. generateKeyAtIndex sha256 (clock i) i) [searchIndex..<next]
                in case promiseAll batchPromises of
                     Inl e \<Rightarrow> results
                   | Inr batch \<Rightarrow>
                       searchVirtualLoop sha256 clock aborted t (b + 1) next
                         (scanBatch (aborted (2 * b + 1)) t batch
                            (foundKeyIds, results, foundCount))
      else results)"
  by pat_completeness auto
termination
  by (relation "measure (\<lambda>(sha256, clock, aborted, t, b, searchIndex, acc). 100000 - searchIndex)")
    (auto simp: SEARCH_BATCH_SIZE_def)

definition searchVirtualKeys ::
    "digest \<Rightarrow> (nat \<Rightarrow> nat) \<Rightarrow> (nat \<Rightarrow> bool) \<Rightarrow> string \<Rightarrow> BitcoinKey list" where
  "searchVirtualKeys sha256 clock aborted searchTerm =
     (if length searchTerm < 3 then []
      else searchVirtualLoop sha256 clock aborted (toLowerCase searchTerm) 0 0 ({}, [], 0))"

text \<open>
  \<open>performSearch\<close> awaits \<open>searchVirtualKeys\<close> once, and other calls of \<open>performSearch\<close> can
  run while it waits. The state they share is explicit: every \<open>AbortController\<close> ever
  made is an entry of \<open>controllers\<close>, holding its \<open>signal.aborted\<close>, and the ref
  \<open>searchAbortController.current\<close> is an index into that list, or \<open>null\<close>.
\<close>

record SearchState =
  controllers :: "bool list"
  searchAbortController :: "nat option"
  searchResults :: "BitcoinKey list"
  searchLoading :: bool
  searchCompleted :: bool

definition initialSearchState :: SearchState where
  "initialSearchState =
     \<lparr>controllers = [], searchAbortController = None, searchResults = [],
      searchLoading = False, searchCompleted = False\<rparr>"

text \<open>
  What a call of \<open>performSearch\<close> holds while it waits: the signal it handed to
  \<open>searchVirtualKeys\<close> and the matches among the loaded keys.
\<close>

record SearchSession =
  signal :: nat
  loadedMatches :: "BitcoinKey list"

definition abortCurrent :: "SearchState \<Rightarrow> SearchState" where
  "abortCurrent st =
     (case searchAbortController st of
        None \<Rightarrow> st
      | Some c \<Rightarrow> st\<lparr>controllers := (controllers st)[c := True]\<rparr>)"

text \<open>\<open>performSearch\<close> up to its \<open>await\<close>.\<close>

definition performSearch_begin ::
    "string \<Rightarrow> BitcoinKey list \<Rightarrow> SearchState \<Rightarrow> SearchState \<times> SearchSession option" where
  "performSearch_begin searchTerm loaded st0 =
     (let st = abortCurrent st0
      in if length searchTerm < 3
         then (st\<lparr>searchResults := [], searchLoading := False, searchCompleted := False\<rparr>, None)
         else let fresh = length (controllers st);
                  st = st\<lparr>searchLoading := True, searchCompleted := False,
                          controllers := controllers st @ [False],
                          searchAbortController := Some fresh\<rparr>
              in (st, Some \<lparr>signal = fresh,
                            loadedMatches = filter (keyMatches (toLowerCase searchTerm)) loaded\<rparr>))"

text \<open>
  The \<open>Map\<close> the results are combined in keeps the order of first insertion; \<open>set\<close> on a
  key that is present replaces the value in place.
\<close>

fun mapSet :: "(string \<times> BitcoinKey) list \<Rightarrow> string \<Rightarrow> BitcoinKey \<Rightarrow> (string \<times> BitcoinKey) list" where
  "mapSet [] k v = [(k, v)]"
| "mapSet ((k', v') # m) k v = (if k' = k then (k, v) # m else (k', v') # mapSet m k v)"

definition combineResults :: "BitcoinKey list \<Rightarrow> BitcoinKey list \<Rightarrow> BitcoinKey list" where
  "combineResults loadedMatches' virtualMatches =
     (let combinedResults = foldl (\<lambda>m key. mapSet m (key_id key) key) [] loadedMatches';
          combinedResults =
            foldl (\<lambda>m key. if key_id key \<in> fst ` set m then m else mapSet m (key_id key) key)
              combinedResults virtualMatches
      in sort_key index (map snd combinedResults))"

text \<open>
  \<open>performSearch\<close> after its \<open>await\<close>, with what \<open>searchVirtualKeys\<close> returned. The two
  guards read \<open>searchAbortController.current.signal.aborted\<close>: the controller the ref
  holds when the call resumes.
\<close>

definition performSearch_end ::
    "SearchSession \<Rightarrow> BitcoinKey list \<Rightarrow> SearchState \<Rightarrow> SearchState" where
  "performSearch_end session virtualMatches st =
     (let allMatches = combineResults (loadedMatches session) virtualMatches
      in case searchAbortController st of
           None \<Rightarrow> st\<lparr>searchResults := [], searchCompleted := True, searchLoading := False\<rparr>
         | Some c \<Rightarrow>
             if \<not> controllers st ! c
             then st\<lparr>searchResults := allMatches, searchCompleted := True,
                     searchLoading := False\<rparr>
             else st)"

section \<open>Balance lookup (src/utils/bitcoin.ts)\<close>

text \<open>
  What \<open>fetch\<close> and \<open>response.json()\<close> can do to \<open>checkBalance\<close>: the request is rejected
  (\<open>NetworkFailure\<close>), the response is not \<open>ok\<close> and carries a status, the body does not
  parse, or it parses and holds \<open>final_balance\<close>, an integer number of satoshis. The
  lookup is a parameter, a function of the address.
\<close>

datatype Response = NetworkFailure | Status nat | BadJson | Json int

datatype exn = FetchTypeError | HttpError nat | JsonSyntaxError

text \<open>
  The static fields the lookup uses. Times are milliseconds; a cache entry is the balance
  and the time it was stored.
\<close>

record ApiState =
  lastApiCall :: int
  balanceCache :: "string \<rightharpoonup> (real \<times> int)"

definition API_RATE_LIMIT :: int where
  "API_RATE_LIMIT = 1000"

definition CACHE_DURATION :: int where
  "CACHE_DURATION = 5 * 60 * 1000"

text \<open>
  The \<open>try\<close> block of \<open>checkBalance\<close>; \<open>cached\<close> is its first step, the look into the
  cache. \<open>now\<close> is \<open>Date.now()\<close> when the call starts; if the
  rate limit makes the call wait, the clock has moved on by the waiting time when
  \<open>lastApiCall\<close> and the cache entry are stamped. The division by \<open>100000000\<close> is taken
  exactly: rounding to a double does not change the sign of the result, which is all
  the caller looks at.
\<close>

definition cached :: "int \<Rightarrow> ApiState \<Rightarrow> string \<Rightarrow> real option" where
  "cached now st address =
     (case balanceCache st address of
        None \<Rightarrow> None
      | Some (balance, stamp) \<Rightarrow> (if now - stamp < CACHE_DURATION then Some balance else None))"

definition checkBalance_try ::
    "(string \<Rightarrow> Response) \<Rightarrow> int \<Rightarrow> ApiState \<Rightarrow> string \<Rightarrow> (exn + real) \<times> ApiState" where
  "checkBalance_try fetch now st address =
     (case cached now st address of
        Some balance \<Rightarrow> (Inr balance, st)
      | None \<Rightarrow>
          (let timeSinceLastCall = now - lastApiCall st;
               now = (if timeSinceLastCall < API_RATE_LIMIT
                      then now + (API_RATE_LIMIT - timeSinceLastCall) else now);
               st = st\<lparr>lastApiCall := now\<rparr>
           in (case fetch address of
                 NetworkFailure \<Rightarrow> (Inl FetchTypeError, st)
               | Status code \<Rightarrow> (if code = 429 then (Inr 0, st) else (Inl (HttpError code), st))
               | BadJson \<Rightarrow> (Inl JsonSyntaxError, st)
               | Json final_balance \<Rightarrow>
                   (let balanceInBTC = real_of_int final_balance / 100000000
                    in (Inr balanceInBTC,
                        st\<lparr>balanceCache :=
                             (balanceCache st)(address \<mapsto> (balanceInBTC, now))\<rparr>)))))"

text \<open>
  A lookup has failed when it gave anything but a parsed body: the \<open>try\<close> block then
  throws, or, for the status 429, returns 0 at once.
\<close>

definition lookupFailed :: "Response \<Rightarrow> bool" where
  "lookupFailed r = (case r of Json final_balance \<Rightarrow> False | _ \<Rightarrow> True)"

text \<open>The \<open>catch\<close> of \<open>checkBalance\<close>: every error is logged and becomes the balance 0.\<close>

definition checkBalance :: "(string \<Rightarrow> Response) \<Rightarrow> int \<Rightarrow> ApiState \<Rightarrow> string \<Rightarrow> real \<times> ApiState" where
  "checkBalance fetch now st address =
     (case checkBalance_try fetch now st address of
        (Inl error, st') \<Rightarrow> (0, st')
      | (Inr balance, st') \<Rightarrow> (balance, st'))"

text \<open>
  \<open>checkAllBalances\<close>. The three lookups of \<open>Promise.all\<close> are started at the same time
  \<open>now\<close> and are run here one after the other; since the lookup is a function of the
  address, the order does not change the three balances. \<open>checkBalance\<close> has caught
  every error itself, so the \<open>catch\<close> of \<open>checkAllBalances\<close> has nothing to catch and no
  branch here.
\<close>

definition checkAllBalances ::
    "(string \<Rightarrow> Response) \<Rightarrow> int \<Rightarrow> ApiState \<Rightarrow> BitcoinKey \<Rightarrow> BitcoinKey \<times> ApiState" where
  "checkAllBalances fetch now st key =
     (case checkBalance fetch now st (legacy (addresses key)) of (legacyBalance', st) \<Rightarrow>
      case checkBalance fetch now st (segwit (addresses key)) of (segwitBalance', st) \<Rightarrow>
      case checkBalance fetch now st (nativeSegwit (addresses key)) of (nativeSegwitBalance', st) \<Rightarrow>
        (key\<lparr>balances :=
               \<lparr>legacyBalance = (if legacyBalance' > 0 then Some legacyBalance' else None),
                segwitBalance = (if segwitBalance' > 0 then Some segwitBalance' else None),
                nativeSegwitBalance =
                  (if nativeSegwitBalance' > 0 then Some nativeSegwitBalance' else None)\<rparr>\<rparr>,
         st))"

section \<open>Properties of the codec\<close>

lemma bytesToBigInt_Nil: "bytesToBigInt [] = 0"
  by (simp add: bytesToBigInt_def)

lemma bytesToBigInt_snoc: "bytesToBigInt (bs @ [b]) = bytesToBigInt bs * 256 + uint b"
  by (simp add: bytesToBigInt_def push_bit_eq_mult)

lemma bytesToBigInt_range: "0 \<le> bytesToBigInt bs \<and> bytesToBigInt bs < 256 ^ length bs"
proof (induction bs rule: rev_induct)
  case Nil
  show ?case by (simp add: bytesToBigInt_Nil)
next
  case (snoc b bs)
  have b: "0 \<le> uint b" "uint b < 256"
    using uint_lt2p [of b] by simp_all
  from snoc have "bytesToBigInt bs + 1 \<le> 256 ^ length bs" by simp
  then have "(bytesToBigInt bs + 1) * 256 \<le> 256 ^ length bs * 256"
    by (rule mult_right_mono) simp
  with snoc b show ?case
    by (simp add: bytesToBigInt_snoc algebra_simps)
qed

lemma bytesToBigInt_append:
  "bytesToBigInt (xs @ ys) = bytesToBigInt xs * 256 ^ length ys + bytesToBigInt ys"
proof (induction ys rule: rev_induct)
  case Nil
  show ?case by (simp add: bytesToBigInt_Nil)
next
  case (snoc y ys)
  have "bytesToBigInt (xs @ ys @ [y]) = bytesToBigInt ((xs @ ys) @ [y])" by simp
  also have "\<dots> = bytesToBigInt (xs @ ys) * 256 + uint y"
    by (rule bytesToBigInt_snoc)
  finally show ?case
    using snoc by (simp add: bytesToBigInt_snoc algebra_simps)
qed

lemma bytesToBigInt_Cons:
  "bytesToBigInt (b # bs) = uint b * 256 ^ length bs + bytesToBigInt bs"
  using bytesToBigInt_append [of "[b]" bs] bytesToBigInt_snoc [of "[]" b]
  by (simp add: bytesToBigInt_Nil)

lemma length_bigIntToBytes_loop: "length (bigIntToBytes_loop n v bytes) = n + length bytes"
  by (induction n arbitrary: v bytes) simp_all

lemma uint_low_byte: "uint (word_of_int (v AND 0xFF) :: byte) = v mod 256"
proof -
  have "v AND 0xFF = take_bit 8 v"
    using take_bit_eq_mask [of 8 v] by (simp add: mask_eq_exp_minus_1)
  then show ?thesis
    by (simp add: uint_word_of_int take_bit_eq_mod)
qed

lemma bytesToBigInt_loop:
  "bytesToBigInt (bigIntToBytes_loop n v bytes) =
     (v mod 256 ^ n) * 256 ^ length bytes + bytesToBigInt bytes"
proof (induction n arbitrary: v bytes)
  case 0
  show ?case by simp
next
  case (Suc n)
  have split: "v mod (256 * 256 ^ n) = 256 * ((v div 256) mod 256 ^ n) + v mod 256"
    using zmod_zmult2_eq [of "256 ^ n" v 256] by simp
  show ?case
    by (simp add: Suc bytesToBigInt_Cons uint_low_byte drop_bit_eq_div split algebra_simps)
qed

lemma length_bigIntToBytes: "length (bigIntToBytes v) = 32"
  by (simp add: bigIntToBytes_def length_bigIntToBytes_loop)

lemma bytesToBigInt_bigIntToBytes: "bytesToBigInt (bigIntToBytes v) = v mod 2 ^ 256"
proof -
  have "(256::int) ^ 32 = 2 ^ 256" by simp
  then show ?thesis
    by (simp only: bigIntToBytes_def bytesToBigInt_loop bytesToBigInt_Nil list.size
        power_0 mult_1_right add_0_right)
qed

section \<open>The mixed candidate is always a valid scalar\<close>

lemma of_nat_mod_byte: "(of_nat (n mod 256) :: byte) = of_nat n"
  by (simp add: word_of_nat_eq_iff take_bit_eq_mod)

lemma drop_hi: "idx < 2 ^ 48 \<Longrightarrow> 48 \<le> n \<Longrightarrow> drop_bit n (of_nat idx :: 64 word) = 0"
proof -
  assume a: "idx < 2 ^ 48" "48 \<le> n"
  have "(2::nat) ^ 48 \<le> 2 ^ n" using a(2) by (rule power_increasing) simp
  with a have lt: "idx < 2 ^ n" by simp
  have "unat (drop_bit n (of_nat idx :: 64 word)) = drop_bit n (unat (of_nat idx :: 64 word))"
    by (rule unat_drop_bit_eq)
  also have "\<dots> = (idx mod 2 ^ 64) div 2 ^ n"
    by (simp only: unat_of_nat drop_bit_eq_div) simp
  also have "\<dots> = 0" using lt a(1) by simp
  finally show ?thesis by (simp add: unat_eq_0)
qed

lemma idx_hi: "idx < 2 ^ 48 \<Longrightarrow> k < 2 \<Longrightarrow> indexArray idx ! k = 0"
proof -
  assume a: "idx < 2 ^ 48" "k < 2"
  then have "k = 0 \<or> k = 1" by auto
  then show ?thesis using a(1)
    by (auto simp: indexArray_def drop_hi upt_rec [of _ 8] )
qed

lemma mix0: "idx < 2 ^ 48 \<Longrightarrow> mixByte idx 0 = 0x42 XOR of_nat idx"
  using idx_hi [of idx 0] by (simp add: mixByte_def MASTER_SEED_def of_nat_mod_byte)

lemma mix1: "idx < 2 ^ 48 \<Longrightarrow> mixByte idx (Suc 0) = 0x69 XOR (of_nat idx + 1)"
  using idx_hi [of idx 1] of_nat_mod_byte [of "Suc idx"]
  by (simp add: mixByte_def MASTER_SEED_def add.commute)

lemma xor_cancel: "(a::byte) XOR x = b \<Longrightarrow> x = a XOR b"
  by (metis xor.left_commute xor_self_eq xor.right_neutral)

lemma not_both_ff: "\<not> ((0x42 XOR x = (0xFF::byte)) \<and> (0x69 XOR (x + 1) = 0xFF))"
proof
  assume a: "(0x42 XOR x = (0xFF::byte)) \<and> (0x69 XOR (x + 1) = 0xFF)"
  then have "x = 0x42 XOR 0xFF" by (intro xor_cancel) simp
  then have "x = 0xBD" by simp
  with a show False by simp
qed

lemma not_both_0: "\<not> ((0x42 XOR x = (0::byte)) \<and> (0x69 XOR (x + 1) = 0))"
proof
  assume a: "(0x42 XOR x = (0::byte)) \<and> (0x69 XOR (x + 1) = 0)"
  then have "x = 0x42 XOR 0" by (intro xor_cancel) simp
  then have "x = 0x42" by simp
  with a show False by simp
qed


lemma candidate_split:
  "candidateKey idx = mixByte idx 0 # mixByte idx 1 # map (mixByte idx) [2..<32]"
proof -
  have "[0..<32] = 0 # [Suc 0..<32]" by (rule upt_conv_Cons) simp
  moreover have "[Suc 0..<32] = Suc 0 # [Suc (Suc 0)..<32]" by (rule upt_conv_Cons) simp
  ultimately have "[0..<32::nat] = 0 # 1 # [2..<32]" by (simp add: numeral_2_eq_2)
  then show ?thesis by (simp only: candidateKey_def list.map)
qed

lemma key_bounds_arith:
  fixes a b r :: int
  assumes "0 \<le> a" "a \<le> 255" "0 \<le> b" "b \<le> 255" "0 \<le> r" "r < 256 ^ 30"
    and "0 < a \<or> 0 < b" and "a \<le> 254 \<or> b \<le> 254"
  shows "0 < a * 256 ^ 31 + b * 256 ^ 30 + r \<and> a * 256 ^ 31 + b * 256 ^ 30 + r < maxKey"
  using assms unfolding maxKey_def by simp linarith

lemma candidate_value:
  assumes "idx < 2 ^ 48"
  shows "0 < bytesToBigInt (candidateKey idx) \<and> bytesToBigInt (candidateKey idx) < maxKey"
proof -
  let ?x = "of_nat idx :: byte"
  let ?b0 = "0x42 XOR ?x" and ?b1 = "0x69 XOR (?x + 1)"
  let ?rest = "map (mixByte idx) [2..<32]"
  let ?r = "bytesToBigInt ?rest"
  have r: "0 \<le> ?r" "?r < 256 ^ 30"
    using bytesToBigInt_range [of ?rest] by simp_all
  have v: "bytesToBigInt (candidateKey idx) = uint ?b0 * 256 ^ 31 + uint ?b1 * 256 ^ 30 + ?r"
    by (simp add: candidate_split mix0 [OF assms] mix1 [OF assms] bytesToBigInt_Cons)
  have u0: "0 \<le> uint ?b0" "uint ?b0 \<le> 255" and u1: "0 \<le> uint ?b1" "uint ?b1 \<le> 255"
    using uint_lt2p [of ?b0] uint_lt2p [of ?b1] by simp_all
  have pos: "0 < uint ?b0 \<or> 0 < uint ?b1"
  proof (rule ccontr)
    assume "\<not> ?thesis"
    with u0 u1 have "uint ?b0 = 0 \<and> uint ?b1 = 0" by linarith
    then have "?b0 = 0 \<and> ?b1 = 0" by (simp add: uint_0_iff)
    with not_both_0 [of ?x] show False by simp
  qed
  have small: "uint ?b0 \<le> 254 \<or> uint ?b1 \<le> 254"
  proof (rule ccontr)
    assume "\<not> ?thesis"
    with u0 u1 have "uint ?b0 = 255 \<and> uint ?b1 = 255" by linarith
    then have "uint ?b0 = uint (255 :: byte) \<and> uint ?b1 = uint (255 :: byte)" by simp
    then have "?b0 = 255 \<and> ?b1 = 255" by (simp only: word_uint_eq_iff [symmetric])
    with not_both_ff [of ?x] show False by simp
  qed
  show ?thesis
    unfolding v by (rule key_bounds_arith [OF u0 u1 r pos small])
qed

lemma correctionLoop_valid: "\<not> keyInvalid k \<Longrightarrow> correctionLoop fuel k idx attempts = k"
  by (cases fuel) simp_all

lemma scalar_of_small_index:
  assumes "idx < 2 ^ 48"
  shows "bytesToBigInt (generateFixedPrivateKeyFromIndex idx) = bytesToBigInt (candidateKey idx)"
proof -
  let ?c = "bytesToBigInt (candidateKey idx)"
  from candidate_value [OF assms] have c: "0 < ?c" "?c < maxKey" by simp_all
  then have "\<not> keyInvalid ?c" by (simp add: keyInvalid_def)
  then have "generateFixedPrivateKeyFromIndex idx = bigIntToBytes ?c"
    by (simp add: generateFixedPrivateKeyFromIndex_def ensureValidPrivateKeySync_def
        correctionLoop_valid)
  moreover have "?c mod 2 ^ 256 = ?c"
    using c by (simp add: maxKey_def)
  ultimately show ?thesis by (simp add: bytesToBigInt_bigIntToBytes)
qed











section \<open>Claims about the codec and the key derivation\<close>

text \<open>
  C1. For every index from 0 to \<open>10^6\<close>, the 32 bytes returned by
  \<open>generateFixedPrivateKeyFromIndex\<close>, read as a big-endian unsigned integer, are strictly
  between 0 and the secp256k1 group order.
\<close>

theorem scalar_in_range:
  assumes "idx \<le> 10 ^ 6"
  shows "0 < bytesToBigInt (generateFixedPrivateKeyFromIndex idx) \<and>
         bytesToBigInt (generateFixedPrivateKeyFromIndex idx) < secp256k1Order"
proof -
  have "(10::nat) ^ 6 < 2 ^ 48" by simp
  with assms have small: "idx < 2 ^ 48" by linarith
  have "maxKey < secp256k1Order" by (simp add: maxKey_def secp256k1Order_def)
  with candidate_value [OF small] show ?thesis
    by (simp add: scalar_of_small_index [OF small])
qed

theorem scalar_in_range_witness:
  "(1000000::nat) \<le> 10 ^ 6 \<and>
   0 < bytesToBigInt (generateFixedPrivateKeyFromIndex 1000000) \<and>
   bytesToBigInt (generateFixedPrivateKeyFromIndex 1000000) < secp256k1Order"
proof -
  have h: "(1000000::nat) \<le> 10 ^ 6" by simp
  from scalar_in_range [OF h] h show ?thesis by simp
qed



text \<open>
  On its own, \<open>ensureValidPrivateKeySync\<close> and the specified procedure part at seeds
  that \<open>generateFixedPrivateKeyFromIndex\<close>, its only caller, never passes: the seed
  \<open>N - 1\<close> is replaced by 1, and \<open>2^256 - 1\<close> is reduced modulo \<open>N - 1\<close>.
\<close>

lemma ensureValid_at_seeds_never_passed:
  "bytesToBigInt (bigIntToBytes (secp256k1Order - 1)) = secp256k1Order - 1 \<and>
   0 < secp256k1Order - 1 \<and> secp256k1Order - 1 < secp256k1Order \<and>
   keyInvalid (secp256k1Order - 1) \<and>
   bytesToBigInt (ensureValidPrivateKeySync (bigIntToBytes (secp256k1Order - 1)) 0) = 1 \<and>
   bytesToBigInt (ensureValidPrivateKeySync (bigIntToBytes (2 ^ 256 - 1)) 0) =
     (2 ^ 256 - 1) mod (secp256k1Order - 1) \<and>
   (2 ^ 256 - 1) mod (secp256k1Order - 1) \<noteq> (2 ^ 256 - 1) mod secp256k1Order"
  by code_simp

text \<open>
  C9, as stated: a value that does not fit the width makes the conversion fail. It does
  not: \<open>2^256\<close> needs 33 bytes, and \<open>bigIntToBytes\<close> returns 32 zero bytes for it.
\<close>

theorem bigIntToBytes_overflow_counterexample:
  "\<not> (2 ^ 256 < (256::int) ^ 32) \<and> bigIntToBytes (2 ^ 256) = replicate 32 0"
  by code_simp

text \<open>
  C9, amended. \<open>bigIntToBytes\<close> has no width argument and no failure: for every value it
  returns exactly 32 bytes, the big-endian encoding of the value modulo \<open>2^256\<close>. For a
  value that fits (\<open>0 \<le> v < 2^256\<close>) that is the zero-padded big-endian encoding of the
  value itself; a value that does not fit is truncated to its low 256 bits.
\<close>

theorem bigIntToBytes_truncates:
  "length (bigIntToBytes v) = 32 \<and> bytesToBigInt (bigIntToBytes v) = v mod 2 ^ 256"
  by (simp add: length_bigIntToBytes bytesToBigInt_bigIntToBytes)

section \<open>Base58 round trip\<close>

declare encodeDigits.simps [simp del] decodeBytes.simps [simp del]

lemma indexOf_nth: "distinct xs \<Longrightarrow> i < length xs \<Longrightarrow> indexOf xs (xs ! i) = Some i"
proof (induction xs arbitrary: i)
  case Nil
  then show ?case by simp
next
  case (Cons x xs)
  show ?case
  proof (cases i)
    case 0
    then show ?thesis by simp
  next
    case (Suc j)
    with Cons.prems have "xs ! j \<in> set xs" "x \<notin> set xs" by simp_all
    then have "x \<noteq> xs ! j" by auto
    with Suc Cons show ?thesis by simp
  qed
qed

lemma alphabet_length: "length BASE58_ALPHABET = 58"
  by (simp add: BASE58_ALPHABET_def)

lemma alphabet_distinct: "distinct BASE58_ALPHABET"
  by (simp add: BASE58_ALPHABET_def)

lemma alphabet_zero: "BASE58_ALPHABET ! 0 = CHR ''1''"
  by (simp add: BASE58_ALPHABET_def)

lemma indexOf_alphabet: "d < 58 \<Longrightarrow> indexOf BASE58_ALPHABET (BASE58_ALPHABET ! d) = Some d"
  by (rule indexOf_nth [OF alphabet_distinct]) (simp add: alphabet_length)

lemma alphabet_nonzero: "0 < d \<Longrightarrow> d < 58 \<Longrightarrow> BASE58_ALPHABET ! d \<noteq> CHR ''1''"
  using nth_eq_iff_index_eq [OF alphabet_distinct, of d 0]
  by (simp add: alphabet_length alphabet_zero)

lemma encodeDigits_0: "encodeDigits 0 acc = acc"
  by (simp add: encodeDigits.simps)

lemma encodeDigits_pos:
  "0 < num \<Longrightarrow> encodeDigits num acc = encodeDigits (num div 58) (BASE58_ALPHABET ! (num mod 58) # acc)"
  by (subst encodeDigits.simps) simp

lemma encodeDigits_acc: "encodeDigits num acc = encodeDigits num [] @ acc"
proof (induction num arbitrary: acc rule: less_induct)
  case (less num)
  show ?case
  proof (cases "num > 0")
    case True
    then have lt: "num div 58 < num" by simp
    let ?c = "BASE58_ALPHABET ! (num mod 58)"
    have "encodeDigits num acc = encodeDigits (num div 58) [] @ ?c # acc"
      using less [OF lt, of "?c # acc"] by (simp add: encodeDigits_pos [OF True])
    moreover have "encodeDigits num [] = encodeDigits (num div 58) [] @ [?c]"
      using less [OF lt, of "[?c]"] by (simp add: encodeDigits_pos [OF True])
    ultimately show ?thesis by simp
  next
    case False
    then show ?thesis by (simp add: encodeDigits_0)
  qed
qed

lemma encodeDigits_snoc:
  "0 < num \<Longrightarrow> encodeDigits num [] = encodeDigits (num div 58) [] @ [BASE58_ALPHABET ! (num mod 58)]"
  using encodeDigits_acc [of "num div 58" "[BASE58_ALPHABET ! (num mod 58)]"]
  by (simp add: encodeDigits_pos)

lemma decodeNum_append:
  "decodeNum (xs @ ys) m = (case decodeNum xs m of Inl e \<Rightarrow> Inl e | Inr k \<Rightarrow> decodeNum ys k)"
  by (induction xs arbitrary: m) (simp_all split: option.splits)

lemma decodeNum_digits: "decodeNum (encodeDigits num []) 0 = Inr num"
proof (induction num rule: less_induct)
  case (less num)
  show ?case
  proof (cases "num > 0")
    case True
    then have lt: "num div 58 < num" by simp
    have d: "num mod 58 < 58" by simp
    show ?thesis
      by (simp add: encodeDigits_snoc [OF True] decodeNum_append less [OF lt]
          indexOf_alphabet [OF d])
  next
    case False
    then show ?thesis by (simp add: encodeDigits_0)
  qed
qed

lemma digits_head:
  "0 < num \<Longrightarrow> encodeDigits num [] \<noteq> [] \<and> hd (encodeDigits num []) \<noteq> CHR ''1''"
proof (induction num rule: less_induct)
  case (less num)
  note pos = \<open>0 < num\<close>
  show ?case
  proof (cases "num div 58 = 0")
    case True
    with pos have "num mod 58 = num" "num < 58" by (simp_all add: div_eq_0_iff)
    with pos alphabet_nonzero [of num] show ?thesis
      by (simp add: encodeDigits_snoc [OF pos] True encodeDigits_0)
  next
    case False
    then have q: "0 < num div 58" by simp
    from pos have lt: "num div 58 < num" by simp
    from less.IH [OF lt q] show ?thesis
      by (simp add: encodeDigits_snoc [OF pos])
  qed
qed

lemma indexOf_one: "indexOf BASE58_ALPHABET CHR ''1'' = Some 0"
  by (simp add: BASE58_ALPHABET_def)

lemma decodeNum_ones: "decodeNum (replicate z CHR ''1'' @ s) 0 = decodeNum s 0"
  by (induction z) (simp_all add: indexOf_one)

lemma leadingOnes_eq:
  "leadingOnes bytes encoded =
     replicate (length (takeWhile (\<lambda>b. b = 0) bytes)) CHR ''1'' @ encoded"
  by (induction bytes arbitrary: encoded) (simp_all add: replicate_app_Cons_same)

lemma leadingZeros_eq:
  "s = [] \<or> hd s \<noteq> CHR ''1'' \<Longrightarrow>
   leadingZeros (replicate z CHR ''1'' @ s) bytes = replicate z 0 @ bytes"
proof (induction z arbitrary: bytes)
  case 0
  then show ?case by (cases s) auto
next
  case (Suc z)
  then show ?case by (simp add: replicate_app_Cons_same)
qed

lemma bytesToNum_Nil: "bytesToNum [] = 0"
  by (simp add: bytesToNum_def)

lemma bytesToNum_snoc: "bytesToNum (bs @ [b]) = bytesToNum bs * 256 + unat b"
  by (simp add: bytesToNum_def)

lemma bytesToNum_single: "bytesToNum [b] = unat b"
  by (simp add: bytesToNum_def)

lemma bytesToNum_zeros: "bytesToNum (replicate z 0 @ bs) = bytesToNum bs"
proof (induction bs rule: rev_induct)
  case Nil
  show ?case by (induction z) (simp_all add: bytesToNum_def)
next
  case (snoc b bs)
  have "bytesToNum (replicate z 0 @ bs @ [b]) = bytesToNum ((replicate z 0 @ bs) @ [b])" by simp
  also have "\<dots> = bytesToNum (replicate z 0 @ bs) * 256 + unat b" by (rule bytesToNum_snoc)
  finally show ?case using snoc by (simp add: bytesToNum_snoc)
qed

lemma bytesToNum_pos: "bs \<noteq> [] \<Longrightarrow> hd bs \<noteq> 0 \<Longrightarrow> 0 < bytesToNum bs"
proof (induction bs rule: rev_induct)
  case Nil
  then show ?case by simp
next
  case (snoc b bs)
  show ?case
  proof (cases "bs = []")
    case True
    with snoc.prems have "b \<noteq> 0" by simp
    then have "0 < unat b" by (simp add: unat_gt_0)
    with True show ?thesis by (simp add: bytesToNum_single)
  next
    case False
    with snoc have "0 < bytesToNum bs" by simp
    then show ?thesis by (simp add: bytesToNum_snoc)
  qed
qed

lemma decodeBytes_0: "decodeBytes 0 acc = acc"
  by (simp add: decodeBytes.simps)

lemma decodeBytes_pos:
  "0 < num \<Longrightarrow> decodeBytes num acc = decodeBytes (num div 256) (of_nat (num mod 256) # acc)"
  by (subst decodeBytes.simps) simp

lemma decodeBytes_acc: "decodeBytes num acc = decodeBytes num [] @ acc"
proof (induction num arbitrary: acc rule: less_induct)
  case (less num)
  show ?case
  proof (cases "num > 0")
    case True
    then have lt: "num div 256 < num" by simp
    let ?c = "of_nat (num mod 256) :: byte"
    have "decodeBytes num acc = decodeBytes (num div 256) [] @ ?c # acc"
      using less [OF lt, of "?c # acc"] by (simp add: decodeBytes_pos [OF True])
    moreover have "decodeBytes num [] = decodeBytes (num div 256) [] @ [?c]"
      using less [OF lt, of "[?c]"] by (simp add: decodeBytes_pos [OF True])
    ultimately show ?thesis by simp
  next
    case False
    then show ?thesis by (simp add: decodeBytes_0)
  qed
qed

lemma decodeBytes_bytesToNum:
  "bs = [] \<or> hd bs \<noteq> 0 \<Longrightarrow> decodeBytes (bytesToNum bs) [] = bs"
proof (induction bs rule: rev_induct)
  case Nil
  show ?case by (simp add: bytesToNum_Nil decodeBytes_0)
next
  case (snoc b bs)
  let ?n = "bytesToNum bs * 256 + unat b"
  have ub: "unat b < 256" using unsigned_less [of b, where 'a = nat] by simp
  then have dv: "?n div 256 = bytesToNum bs" and md: "?n mod 256 = unat b" by simp_all
  have pos: "0 < ?n"
    using bytesToNum_pos [of "bs @ [b]"] snoc.prems by (simp add: bytesToNum_snoc)
  have tail: "decodeBytes (bytesToNum bs) [] = bs"
  proof (cases "bs = []")
    case True
    then show ?thesis by (simp add: bytesToNum_Nil decodeBytes_0)
  next
    case False
    with snoc.prems have "hd bs \<noteq> 0" by simp
    with snoc.IH show ?thesis by simp
  qed
  have "decodeBytes ?n [] = decodeBytes (bytesToNum bs) [of_nat (unat b)]"
    using decodeBytes_pos [OF pos, of "[]"] by (simp only: dv md)
  also have "\<dots> = decodeBytes (bytesToNum bs) [] @ [b]"
    using decodeBytes_acc [of "bytesToNum bs" "[b]"] by simp
  finally show ?case by (simp add: bytesToNum_snoc tail)
qed

lemma takeWhile_run:
  "s = [] \<or> hd s \<noteq> c \<Longrightarrow> takeWhile (\<lambda>x. x = c) (replicate z c @ s) = replicate z c"
  by (induction z) (cases s; auto)+

text \<open>
  C4. Decoding the Base58 encoding of a byte sequence gives the sequence back, for every
  byte sequence (so in particular for those of length 0 to 64); and the encoding starts
  with exactly as many \<open>'1'\<close> characters as the sequence has leading zero bytes, which is
  how decoding gets them back.
\<close>

theorem base58_roundtrip:
  "Base58_decode (Base58_encode b) = Inr b \<and>
   takeWhile (\<lambda>c. c = CHR ''1'') (Base58_encode b) =
     replicate (length (takeWhile (\<lambda>x. x = 0) b)) CHR ''1''"
proof (cases "b = []")
  case True
  then show ?thesis by (simp add: Base58_encode_def Base58_decode_def)
next
  case False
  let ?z = "length (takeWhile (\<lambda>x. x = 0) b)"
  let ?r = "dropWhile (\<lambda>x. x = 0) b"
  let ?d = "encodeDigits (bytesToNum ?r) []"
  have zeros: "takeWhile (\<lambda>x. x = 0) b = replicate ?z 0"
    by (rule replicate_length_same [symmetric]) (auto dest: set_takeWhileD)
  then have b: "b = replicate ?z 0 @ ?r"
    using takeWhile_dropWhile_id [of "\<lambda>x. x = 0" b] by simp
  have num: "bytesToNum b = bytesToNum ?r"
    using bytesToNum_zeros [of ?z ?r] b by simp
  have enc: "Base58_encode b = replicate ?z CHR ''1'' @ ?d"
    using False by (simp add: Base58_encode_def leadingOnes_eq num)
  have r: "?r = [] \<or> hd ?r \<noteq> 0"
    using hd_dropWhile [of "\<lambda>x. x = 0" b] by auto
  have d: "?d = [] \<or> hd ?d \<noteq> CHR ''1''"
  proof (cases "bytesToNum ?r = 0")
    case True
    then show ?thesis by (simp add: encodeDigits_0)
  next
    case False
    then show ?thesis using digits_head [of "bytesToNum ?r"] by simp
  qed
  have nonempty: "Base58_encode b \<noteq> []"
  proof (cases "?r = []")
    case True
    with b False have "?z \<noteq> 0" by auto
    then show ?thesis by (simp add: enc)
  next
    case False
    moreover from False r have "hd ?r \<noteq> 0" by blast
    ultimately have "0 < bytesToNum ?r" by (rule bytesToNum_pos)
    then show ?thesis using digits_head [of "bytesToNum ?r"] by (simp add: enc)
  qed
  have "decodeNum (Base58_encode b) 0 = Inr (bytesToNum ?r)"
    by (simp add: enc decodeNum_ones decodeNum_digits)
  moreover have "leadingZeros (Base58_encode b) (decodeBytes (bytesToNum ?r) []) = b"
    using leadingZeros_eq [OF d, of ?z ?r] b by (simp add: enc decodeBytes_bytesToNum [OF r])
  ultimately have one: "Base58_decode (Base58_encode b) = Inr b"
    using nonempty by (simp add: Base58_decode_def)
  have two: "takeWhile (\<lambda>c. c = CHR ''1'') (Base58_encode b) = replicate ?z CHR ''1''"
    using takeWhile_run [OF d, of ?z] by (simp add: enc)
  from one two show ?thesis ..
qed

section \<open>Address derivation\<close>

lemma length_ripemd160: "length (ripemd160 sha256 data) = 20"
  by (simp add: ripemd160_def Let_def)

lemma andThen_Inr: "andThen (Inr v) f = f v"
  by (simp add: andThen_def)

lemma u8set_fits:
  "offset + length source \<le> length target \<Longrightarrow>
   u8set target source offset = Inr (take offset target @ source @ drop (offset + length source) target)"
  by (simp add: u8set_def)

lemma encodeCheck_ok: "\<exists>s. encodeCheck sha256 bytes = Inr s"
  by (simp add: encodeCheck_def Let_def u8set_fits andThen_Inr)

lemma legacyPayload_eq:
  "length h = 20 \<Longrightarrow> u8set ((replicate 21 0)[0 := v]) h 1 = Inr (v # h)"
  by (simp add: u8set_def upd_conv_take_nth_drop)

lemma redeemScript_eq:
  "length h = 20 \<Longrightarrow> u8set ((replicate 22 0)[0 := a, 1 := b]) h 2 = Inr ([a, b] @ h)"
  by (simp add: u8set_def take_Suc_conv_app_nth numeral_2_eq_2)

lemma byte_fits: "signed_drop_bit 8 (ucast (b :: byte) :: 32 word) = 0"
  by (rule bit_word_eqI) (auto simp: bit_simps dest: bit_imp_le_length)

lemma regroup_returns:
  "0 < toBits \<Longrightarrow> \<exists>r. regroup toBits maxv acc bits result = Some (bits mod toBits, r)"
proof (induction bits arbitrary: result rule: less_induct)
  case (less bits)
  show ?case
  proof (cases "toBits \<le> bits")
    case True
    with less.prems have lt: "bits - toBits < bits" by simp
    from less.IH [OF lt less.prems] True show ?thesis
      by (subst regroup.simps) (simp add: le_mod_geq)
  next
    case False
    then show ?thesis by (subst regroup.simps) simp
  qed
qed

lemma convertLoop_bytes:
  "0 < toBits \<Longrightarrow>
   \<exists>acc' bits' r. convertLoop 8 toBits maxv (map uint (bs :: byte list)) acc bits result
      = Inr (Some (acc', bits', r))"
proof (induction bs arbitrary: acc bits result)
  case Nil
  show ?case by simp
next
  case (Cons b bs)
  let ?acc = "push_bit 8 acc OR word_of_int (uint b)"
  from regroup_returns [OF Cons.prems, of maxv ?acc "bits + 8" result]
  obtain r where r: "regroup toBits maxv ?acc (bits + 8) result = Some ((bits + 8) mod toBits, r)"
    by blast
  from Cons.IH [OF Cons.prems, of ?acc "(bits + 8) mod toBits" r] r show ?case
    by (simp add: byte_fits)
qed

lemma convertBits_bytes:
  "\<exists>program. convertBits (map uint (h :: byte list)) 8 5 True = Inr (Some program)"
proof -
  obtain acc' bits' r where
    "convertLoop 8 5 (push_bit (5 mod 32) 1 - 1) (map uint h) 0 0 [] = Inr (Some (acc', bits', r))"
    using convertLoop_bytes [of 5 "push_bit (5 mod 32) 1 - 1" h 0 0 "[]"] by auto
  then show ?thesis
    by (simp add: convertBits_def andThen_Inr)
qed

lemma deriveAddresses_eq:
  assumes "encodeCheck sha256 (0x00 # ripemd160 sha256 (sha256 pk)) = Inr a"
    and "encodeCheck sha256
           (0x05 # ripemd160 sha256 (sha256 ([0x00, 0x14] @ ripemd160 sha256 (sha256 pk)))) = Inr b"
    and "convertBits (map uint (ripemd160 sha256 (sha256 pk))) 8 5 True = Inr (Some p)"
  shows "deriveAddresses sha256 pk =
           Inr \<lparr>legacy = a, segwit = b, nativeSegwit = Bech32_encode ''bc'' ([0] @ p)\<rparr>"
proof -
  let ?h = "ripemd160 sha256 (sha256 pk)"
  let ?s = "ripemd160 sha256 (sha256 ([0x00, 0x14] @ ?h))"
  have lh: "length ?h = 20" and ls: "length ?s = 20"
    by (rule length_ripemd160)+
  show ?thesis
    unfolding deriveAddresses_def Let_def
    by (simp only: legacyPayload_eq [OF lh] legacyPayload_eq [OF ls] redeemScript_eq [OF lh]
        andThen_Inr assms option.case)
qed

lemma deriveAddresses_ok: "\<exists>addrs. deriveAddresses sha256 pk = Inr addrs"
proof -
  obtain a where a: "encodeCheck sha256 (0x00 # ripemd160 sha256 (sha256 pk)) = Inr a"
    using encodeCheck_ok by blast
  obtain b where b: "encodeCheck sha256
      (0x05 # ripemd160 sha256 (sha256 ([0x00, 0x14] @ ripemd160 sha256 (sha256 pk)))) = Inr b"
    using encodeCheck_ok by blast
  obtain p where p: "convertBits (map uint (ripemd160 sha256 (sha256 pk))) 8 5 True = Inr (Some p)"
    using convertBits_bytes by blast
  from deriveAddresses_eq [OF a b p] show ?thesis by blast
qed

text \<open>
  C3. For every public key (so for every 33-byte \<open>derivedKeyMaterial\<close>), address
  derivation succeeds, and with the single hash
  \<open>pubKeyHash = ripemd160 (sha256 derivedKeyMaterial)\<close> its three results are: the
  Base58Check encoding of \<open>[0x00] @ pubKeyHash\<close>; the Base58Check encoding of \<open>[0x05]\<close>
  followed by the hash of the redeem script \<open>[0x00, 0x14] @ pubKeyHash\<close>; and the Bech32
  encoding under \<open>bc\<close> of \<open>[0]\<close> followed by \<open>convertBits pubKeyHash 8 5 True\<close>, which
  never fails on the 20 bytes. Each address is a function of that one \<open>pubKeyHash\<close>.
\<close>

theorem deriveAddresses_one_hash:
  "\<exists>legacyAddress segwitAddress program.
     encodeCheck sha256 (0x00 # ripemd160 sha256 (sha256 derivedKeyMaterial)) = Inr legacyAddress \<and>
     encodeCheck sha256
       (0x05 # ripemd160 sha256
          (sha256 ([0x00, 0x14] @ ripemd160 sha256 (sha256 derivedKeyMaterial)))) = Inr segwitAddress \<and>
     convertBits (map uint (ripemd160 sha256 (sha256 derivedKeyMaterial))) 8 5 True = Inr (Some program) \<and>
     deriveAddresses sha256 derivedKeyMaterial =
       Inr \<lparr>legacy = legacyAddress, segwit = segwitAddress,
            nativeSegwit = Bech32_encode ''bc'' ([0] @ program)\<rparr>"
proof -
  let ?h = "ripemd160 sha256 (sha256 derivedKeyMaterial)"
  let ?s = "ripemd160 sha256 (sha256 ([0x00, 0x14] @ ?h))"
  obtain a where a: "encodeCheck sha256 (0x00 # ?h) = Inr a"
    using encodeCheck_ok by blast
  obtain b where b: "encodeCheck sha256 (0x05 # ?s) = Inr b"
    using encodeCheck_ok by blast
  obtain p where p: "convertBits (map uint ?h) 8 5 True = Inr (Some p)"
    using convertBits_bytes by blast
  from a b p deriveAddresses_eq [OF a b p] show ?thesis by blast
qed

section \<open>Key records\<close>

declare numberToString.simps [simp del]

lemma privateKeyToWIF_ok:
  "length privateKey \<le> 33 \<Longrightarrow> \<exists>wif. privateKeyToWIF sha256 privateKey = Inr wif"
  using encodeCheck_ok by (simp add: privateKeyToWIF_def Let_def u8set_def andThen_Inr)

lemma generateKeyFromPrivateKey_ok:
  assumes "length privateKey \<le> 33"
  shows "\<exists>wif addrs.
     generateKeyFromPrivateKey sha256 now privateKey n =
       Inr \<lparr>key_id = ''key-'' @ numberToString n,
            privateKeyHex = bytesToHex privateKey,
            privateKeyWIF = wif,
            publicKey = bytesToHex (getPublicKey privateKey),
            addresses = addrs,
            balances = \<lparr>legacyBalance = None, segwitBalance = None, nativeSegwitBalance = None\<rparr>,
            timestamp = (if n < 1000000000000 then now else n),
            index = (if n < 1000000000000 then n else 0)\<rparr>"
proof -
  obtain wif where w: "privateKeyToWIF sha256 privateKey = Inr wif"
    using privateKeyToWIF_ok [OF assms] by blast
  obtain addrs where "deriveAddresses sha256 (getPublicKey privateKey) = Inr addrs"
    using deriveAddresses_ok by blast
  with w show ?thesis
    by (simp add: generateKeyFromPrivateKey_def Let_def andThen_Inr)
qed

lemma digitChar_value: "d < 10 \<Longrightarrow> (of_char (digitChar d) :: nat) = 48 + d"
proof -
  assume "d < 10"
  then have "d \<in> {0, 1, 2, 3, 4, 5, 6, 7, 8, 9}" by auto
  then show ?thesis by (auto simp: digitChar_def)
qed

lemma parse_numberToString: "parseDigits (numberToString n) = n"
proof (induction n rule: less_induct)
  case (less n)
  show ?case
  proof (cases "n < 10")
    case True
    then show ?thesis
      by (subst numberToString.simps) (simp add: parseDigits_def digitChar_value)
  next
    case False
    then have lt: "n div 10 < n" by simp
    have d: "n mod 10 < 10" by simp
    from less [OF lt] have "foldl (\<lambda>a c. a * 10 + (of_char c - 48)) 0 (numberToString (n div 10)) = n div 10"
      by (simp add: parseDigits_def)
    with False show ?thesis
      by (subst numberToString.simps) (simp add: parseDigits_def digitChar_value [OF d])
  qed
qed

lemma numberToString_inj: "(numberToString m = numberToString n) = (m = n)"
  by (metis parse_numberToString)

text \<open>
  C10. For a 32-byte private key and a number \<open>n\<close> below \<open>2^53\<close> (an integer the template
  literal prints in decimal), \<open>generateKeyFromPrivateKey\<close> returns a record whose id is
  \<open>key-\<close> followed by \<open>n\<close>. When \<open>n\<close> is below \<open>10^12\<close> the record's index is \<open>n\<close> and its
  timestamp is the clock's reading; from \<open>10^12\<close> on the index is 0 and the timestamp is
  \<open>n\<close>. In both cases no other number below \<open>2^53\<close> gives the same id, so the id
  identifies \<open>n\<close> even where the index does not.
\<close>

theorem generateKeyFromPrivateKey_index_or_timestamp:
  assumes "length privateKey = 32" and "n < 2 ^ 53"
  shows "\<exists>key. generateKeyFromPrivateKey sha256 now privateKey n = Inr key \<and>
           key_id key = ''key-'' @ numberToString n \<and>
           (n < 10 ^ 12 \<longrightarrow> index key = n \<and> timestamp key = now) \<and>
           (10 ^ 12 \<le> n \<longrightarrow> index key = 0 \<and> timestamp key = n) \<and>
           (\<forall>m < 2 ^ 53. (''key-'' @ numberToString m = key_id key) = (m = n))"
proof -
  from assms(1) have "length privateKey \<le> 33" by simp
  from generateKeyFromPrivateKey_ok [OF this, of sha256 now n]
  obtain wif addrs where
    "generateKeyFromPrivateKey sha256 now privateKey n =
       Inr \<lparr>key_id = ''key-'' @ numberToString n,
            privateKeyHex = bytesToHex privateKey,
            privateKeyWIF = wif,
            publicKey = bytesToHex (getPublicKey privateKey),
            addresses = addrs,
            balances = \<lparr>legacyBalance = None, segwitBalance = None, nativeSegwitBalance = None\<rparr>,
            timestamp = (if n < 1000000000000 then now else n),
            index = (if n < 1000000000000 then n else 0)\<rparr>"
    by blast
  then show ?thesis by (simp add: numberToString_inj)
qed

lemma numberToString_5: "numberToString 5 = ''5''"
  by (subst numberToString.simps) (simp add: digitChar_def)

theorem generateKeyFromPrivateKey_witness:
  "length (replicate 32 (0::byte)) = 32 \<and> (5::nat) < 2 ^ 53 \<and> (2000000000000::nat) < 2 ^ 53 \<and>
   (\<exists>key. generateKeyFromPrivateKey (\<lambda>data. []) 7 (replicate 32 0) 5 = Inr key \<and>
      key_id key = ''key-5'' \<and> index key = 5 \<and> timestamp key = 7) \<and>
   (\<exists>key. generateKeyFromPrivateKey (\<lambda>data. []) 7 (replicate 32 0) 2000000000000 = Inr key \<and>
      index key = 0 \<and> timestamp key = 2000000000000)"
proof -
  have h: "length (replicate 32 (0::byte)) = 32" by simp
  have s5: "(5::nat) < 2 ^ 53" and s2: "(2000000000000::nat) < 2 ^ 53" by simp_all
  from generateKeyFromPrivateKey_index_or_timestamp [OF h s5, of "\<lambda>data. []" 7]
  have a: "\<exists>key. generateKeyFromPrivateKey (\<lambda>data. []) 7 (replicate 32 0) 5 = Inr key \<and>
      key_id key = ''key-5'' \<and> index key = 5 \<and> timestamp key = 7"
    by (simp add: numberToString_5) blast
  from generateKeyFromPrivateKey_index_or_timestamp [OF h s2, of "\<lambda>data. []" 7]
  have b: "\<exists>key. generateKeyFromPrivateKey (\<lambda>data. []) 7 (replicate 32 0) 2000000000000 = Inr key \<and>
      index key = 0 \<and> timestamp key = 2000000000000"
    by auto
  from h s5 s2 a b show ?thesis by blast
qed

section \<open>Materialization\<close>

lemma length_generateFixedPrivateKeyFromIndex: "length (generateFixedPrivateKeyFromIndex i) = 32"
  by (simp add: generateFixedPrivateKeyFromIndex_def ensureValidPrivateKeySync_def
      length_bigIntToBytes)

lemma generateKeyAtIndex_ok:
  "\<exists>key. generateKeyAtIndex sha256 now i = Inr key \<and>
         key_id key = ''key-'' @ numberToString i \<and>
         index key = (if i < 1000000000000 then i else 0)"
proof -
  have "length (generateFixedPrivateKeyFromIndex i) \<le> 33"
    by (simp add: length_generateFixedPrivateKeyFromIndex)
  from generateKeyFromPrivateKey_ok [OF this, of sha256 now i] show ?thesis
    by (auto simp: generateKeyAtIndex_def)
qed

lemma generateKeysLoop_fresh:
  assumes "distinct js"
    and "\<forall>j\<in>set js. ''key-'' @ numberToString (c + j) \<notin> ids"
    and "\<forall>j\<in>set js. c + j < 1000000000000"
  shows "\<exists>ks. generateKeysLoop sha256 clock c js ids newKeys =
            (ids \<union> (\<lambda>j. ''key-'' @ numberToString (c + j)) ` set js, newKeys @ ks) \<and>
          map key_id ks = map (\<lambda>j. ''key-'' @ numberToString (c + j)) js \<and>
          map index ks = map (\<lambda>j. c + j) js \<and>
          map Inr ks = map (\<lambda>j. generateKeyAtIndex sha256 (clock (c + j)) (c + j)) js"
  using assms
proof (induction js arbitrary: ids newKeys)
  case Nil
  show ?case by simp
next
  case (Cons j js)
  obtain key where key: "generateKeyAtIndex sha256 (clock (c + j)) (c + j) = Inr key"
      "key_id key = ''key-'' @ numberToString (c + j)" "index key = c + j"
    using generateKeyAtIndex_ok [of sha256 "clock (c + j)" "c + j"] Cons.prems(3) by auto
  let ?ids = "insert (key_id key) ids"
  have d: "distinct js" using Cons.prems(1) by simp
  have fresh: "\<forall>i\<in>set js. ''key-'' @ numberToString (c + i) \<notin> ?ids"
  proof
    fix i assume i: "i \<in> set js"
    with Cons.prems(1) have "i \<noteq> j" by auto
    then have "numberToString (c + i) \<noteq> numberToString (c + j)"
      by (simp add: numberToString_inj)
    with i Cons.prems(2) show "''key-'' @ numberToString (c + i) \<notin> ?ids"
      by (simp add: key(2))
  qed
  have small: "\<forall>i\<in>set js. c + i < 1000000000000" using Cons.prems(3) by simp
  from Cons.IH [OF d fresh small, of "newKeys @ [key]"]
  obtain ks where ks:
    "generateKeysLoop sha256 clock c js ?ids (newKeys @ [key]) =
       (?ids \<union> (\<lambda>j. ''key-'' @ numberToString (c + j)) ` set js, (newKeys @ [key]) @ ks)"
    "map key_id ks = map (\<lambda>j. ''key-'' @ numberToString (c + j)) js"
    "map index ks = map (\<lambda>j. c + j) js"
    "map Inr ks = map (\<lambda>j. generateKeyAtIndex sha256 (clock (c + j)) (c + j)) js"
    by blast
  have notin: "''key-'' @ numberToString (c + j) \<notin> ids" using Cons.prems(2) by simp
  have "generateKeysLoop sha256 clock c (j # js) ids newKeys =
      (ids \<union> (\<lambda>j. ''key-'' @ numberToString (c + j)) ` set (j # js), newKeys @ key # ks)"
    using notin key ks(1) by (simp add: Let_def)
  with ks(2,3,4) key show ?case
    by (intro exI [of _ "key # ks"]) simp
qed

lemma map_shift: "map (\<lambda>j. f (c + j)) [0..<n] = map f [c..<c + n]"
proof -
  have "map f [c..<c + n] = map f (map (\<lambda>j. j + c) [0..<n])"
    by (simp only: map_add_upt add.commute)
  then show ?thesis by (simp add: comp_def add.commute)
qed

lemma loadMore_step:
  assumes "\<not> loading st"
    and "generatedKeyIds st = (\<lambda>i. ''key-'' @ numberToString i) ` {0..<currentIndex st}"
    and "map key_id (keys st) = map (\<lambda>i. ''key-'' @ numberToString i) [0..<currentIndex st]"
    and "map index (keys st) = [0..<currentIndex st]"
    and "currentIndex st + 50 \<le> 1000000000000"
  shows "\<not> loading (loadMore sha256 clock st) \<and>
         currentIndex (loadMore sha256 clock st) = currentIndex st + 50 \<and>
         generatedKeyIds (loadMore sha256 clock st) =
           (\<lambda>i. ''key-'' @ numberToString i) ` {0..<currentIndex st + 50} \<and>
         map key_id (keys (loadMore sha256 clock st)) =
           map (\<lambda>i. ''key-'' @ numberToString i) [0..<currentIndex st + 50] \<and>
         map index (keys (loadMore sha256 clock st)) = [0..<currentIndex st + 50] \<and>
         (\<exists>ks. keys (loadMore sha256 clock st) = keys st @ ks \<and>
            map Inr ks =
              map (\<lambda>j. generateKeyAtIndex sha256 (clock (currentIndex st + j)) (currentIndex st + j))
                [0..<50])"
proof -
  let ?c = "currentIndex st"
  let ?id = "\<lambda>i. ''key-'' @ numberToString i"
  have fresh: "\<forall>j\<in>set [0..<50]. ?id (?c + j) \<notin> generatedKeyIds st"
    by (auto simp: assms(2) numberToString_inj)
  have small: "\<forall>j\<in>set [0..<50]. ?c + j < 1000000000000"
    using assms(5) by auto
  from generateKeysLoop_fresh [OF distinct_upt fresh small, of sha256 clock "[]"]
  obtain ks where ks:
    "generateKeys sha256 clock (generatedKeyIds st) ?c 50 =
       (generatedKeyIds st \<union> (\<lambda>j. ?id (?c + j)) ` set [0..<50], ks)"
    "map key_id ks = map (\<lambda>j. ?id (?c + j)) [0..<50]"
    "map index ks = map (\<lambda>j. ?c + j) [0..<50]"
    "map Inr ks = map (\<lambda>j. generateKeyAtIndex sha256 (clock (?c + j)) (?c + j)) [0..<50]"
    by (auto simp: generateKeys_def)
  have ids: "map key_id ks = map ?id [?c..<?c + 50]"
    using ks(2) map_shift [of ?id ?c 50] by simp
  have idxs: "map index ks = [?c..<?c + 50]"
    using ks(3) map_shift [of "\<lambda>i. i" ?c 50] by simp
  have "\<forall>k\<in>set ks. key_id k \<notin> set (map key_id (keys st))"
  proof
    fix k assume "k \<in> set ks"
    then have "key_id k \<in> set (map key_id ks)" by simp
    then obtain i where "?c \<le> i" "key_id k = ?id i" by (auto simp: ids)
    then show "key_id k \<notin> set (map key_id (keys st))"
      by (auto simp: assms(3) numberToString_inj)
  qed
  then have keep: "filter (\<lambda>k. key_id k \<notin> set (map key_id (keys st))) ks = ks"
    by (simp add: filter_id_conv)
  have st': "loadMore sha256 clock st =
      st\<lparr>keys := keys st @ ks, currentIndex := ?c + 50,
         generatedKeyIds := generatedKeyIds st \<union> (\<lambda>j. ?id (?c + j)) ` set [0..<50],
         loading := False\<rparr>"
    using assms(1) keep by (simp add: loadMore_def BATCH_SIZE_def ks(1) Let_def)
  have "plus ?c ` {0..<50} = {0 + ?c..<50 + ?c}"
    by (rule image_add_atLeastLessThan)
  then have shift: "(\<lambda>j. ?c + j) ` {0..<50} = {?c..<?c + 50}"
    by (simp only: add_0 add.commute [of 50])
  have "(\<lambda>j. ?id (?c + j)) ` {0..<50} = ?id ` ((\<lambda>j. ?c + j) ` {0..<50})"
    by (simp only: image_image)
  then have img: "(\<lambda>j. ?id (?c + j)) ` {0..<50} = ?id ` {?c..<?c + 50}"
    by (simp only: shift)
  have "{0..<?c} \<union> {?c..<?c + 50} = {0..<?c + 50}" by auto
  then have "?id ` {0..<?c} \<union> ?id ` {?c..<?c + 50} = ?id ` {0..<?c + 50}"
    by (simp only: image_Un [symmetric])
  with img have set_ids:
    "generatedKeyIds st \<union> (\<lambda>j. ?id (?c + j)) ` set [0..<50] = ?id ` {0..<?c + 50}"
    by (simp only: assms(2) set_upt)
  have upt: "[0..<?c] @ [?c..<?c + 50] = [0..<?c + 50]"
    using upt_add_eq_append [of 0 ?c 50] by simp
  have k: "map key_id (keys st @ ks) = map ?id [0..<?c + 50]"
    by (simp only: map_append assms(3) ids) (simp only: map_append [symmetric] upt)
  have i: "map index (keys st @ ks) = [0..<?c + 50]"
    by (simp only: map_append assms(4) idxs upt)
  show ?thesis
    unfolding st' using k i set_ids ks(4) by simp
qed

text \<open>
  C5. From the fresh state (cursor 0, no id emitted), two calls of \<open>loadMore\<close> in sequence
  leave exactly 100 records, with the indices 0 to 99 in order, each once, and pairwise
  distinct ids; the cursor is 50 after the first call and 100 after the second. In any
  state, a call that is not turned away by the \<open>loading\<close> flag moves the cursor by
  \<open>BATCH_SIZE\<close>, whatever ids are already in \<open>generatedKeyIds\<close> and skipped.
\<close>

theorem loadMore_twice:
  "length (keys (loadMore sha256 clock2 (loadMore sha256 clock1 initialKeysState))) = 100 \<and>
   map index (keys (loadMore sha256 clock2 (loadMore sha256 clock1 initialKeysState))) = [0..<100] \<and>
   distinct (map key_id (keys (loadMore sha256 clock2 (loadMore sha256 clock1 initialKeysState)))) \<and>
   currentIndex (loadMore sha256 clock1 initialKeysState) = BATCH_SIZE \<and>
   currentIndex (loadMore sha256 clock2 (loadMore sha256 clock1 initialKeysState)) = 2 * BATCH_SIZE \<and>
   currentIndex (loadMore sha256 clock st) =
     (if loading st then currentIndex st else currentIndex st + BATCH_SIZE)"
proof -
  let ?s1 = "loadMore sha256 clock1 initialKeysState"
  let ?s2 = "loadMore sha256 clock2 ?s1"
  let ?id = "\<lambda>i. ''key-'' @ numberToString i"
  have one: "\<not> loading ?s1 \<and> currentIndex ?s1 = 50 \<and>
      generatedKeyIds ?s1 = ?id ` {0..<50} \<and> map key_id (keys ?s1) = map ?id [0..<50] \<and>
      map index (keys ?s1) = [0..<50]"
    using loadMore_step [of initialKeysState sha256 clock1]
    by (simp add: initialKeysState_def)
  then have two: "map key_id (keys ?s2) = map ?id [0..<100] \<and> map index (keys ?s2) = [0..<100] \<and>
      currentIndex ?s2 = 100"
    using loadMore_step [of ?s1 sha256 clock2] by simp
  have "distinct (map ?id [0..<100])"
    by (simp add: distinct_map inj_on_def numberToString_inj)
  with two have d: "distinct (map key_id (keys ?s2))"
    by simp
  have "length (keys ?s2) = length (map index (keys ?s2))"
    by (simp only: length_map)
  also have "\<dots> = 100" using two by simp
  finally have len: "length (keys ?s2) = 100" .
  have cursor: "currentIndex (loadMore sha256 clock st) =
     (if loading st then currentIndex st else currentIndex st + BATCH_SIZE)"
    by (simp add: loadMore_def Let_def split: prod.splits)
  from one two d len cursor show ?thesis by (simp add: BATCH_SIZE_def)
qed

section \<open>Balance lookup\<close>

lemma checkBalance_hit: "cached now st a = Some v \<Longrightarrow> checkBalance fetch now st a = (v, st)"
  by (simp add: checkBalance_def checkBalance_try_def)

lemma checkBalance_failed:
  "cached now st a = None \<Longrightarrow> lookupFailed (fetch a) \<Longrightarrow>
   fst (checkBalance fetch now st a) = 0 \<and>
   balanceCache (snd (checkBalance fetch now st a)) = balanceCache st"
  by (cases "fetch a")
    (simp_all add: checkBalance_def checkBalance_try_def lookupFailed_def Let_def)

lemma checkBalance_fetched:
  "cached now st a = None \<Longrightarrow> fetch a = Json b \<Longrightarrow>
   fst (checkBalance fetch now st a) = real_of_int b / 100000000 \<and>
   (\<exists>stamp. balanceCache (snd (checkBalance fetch now st a)) =
      (balanceCache st)(a \<mapsto> (real_of_int b / 100000000, stamp)))"
  by (auto simp: checkBalance_def checkBalance_try_def Let_def)

lemma checkBalance_nonpos:
  assumes "lookupFailed (fetch a) \<or> (\<exists>b. fetch a = Json b \<and> b \<le> 0)"
    and "\<forall>v. cached now st a = Some v \<longrightarrow> v \<le> 0"
  shows "fst (checkBalance fetch now st a) \<le> 0"
proof (cases "cached now st a")
  case (Some v)
  with assms(2) show ?thesis by (simp add: checkBalance_hit)
next
  case None
  from assms(1) show ?thesis
  proof
    assume "lookupFailed (fetch a)"
    with None show ?thesis by (simp add: checkBalance_failed)
  next
    assume "\<exists>b. fetch a = Json b \<and> b \<le> 0"
    then obtain b where b: "fetch a = Json b" "b \<le> 0" by blast
    have "real_of_int b / 100000000 \<le> 0" using b(2) by (simp add: divide_le_0_iff)
    with checkBalance_fetched [where fetch = fetch and a = a, OF None b(1)] show ?thesis by simp
  qed
qed

lemma cached_upd_other: "a' \<noteq> a \<Longrightarrow> cached now (st\<lparr>balanceCache := (balanceCache st)(a' \<mapsto> e)\<rparr>) a = cached now st a"
  by (simp add: cached_def)

lemma cached_cong: "balanceCache st' = balanceCache st \<Longrightarrow> cached now st' a = cached now st a"
  by (simp add: cached_def)

lemma cached_eq: "balanceCache st' a = balanceCache st a \<Longrightarrow> cached now st' a = cached now st a"
  by (simp add: cached_def)

lemma cached_Some: "cached now st a = Some v \<Longrightarrow> \<exists>stamp. balanceCache st a = Some (v, stamp)"
  by (auto simp: cached_def split: option.splits if_splits)

lemma checkBalance_keeps:
  assumes "lookupFailed (fetch a) \<or> (\<exists>b. fetch a = Json b \<and> b \<le> 0)"
    and "\<forall>v. cached now st a = Some v \<longrightarrow> v \<le> 0"
  shows "\<forall>v. cached now (snd (checkBalance fetch now st a')) a = Some v \<longrightarrow> v \<le> 0"
proof (cases "cached now st a'")
  case (Some v)
  with assms(2) show ?thesis by (simp add: checkBalance_hit)
next
  case None
  show ?thesis
  proof (cases "fetch a'")
    case (Json b)
    from checkBalance_fetched [where fetch = fetch and a = a', OF None Json] obtain stamp where
      c: "balanceCache (snd (checkBalance fetch now st a')) =
            (balanceCache st)(a' \<mapsto> (real_of_int b / 100000000, stamp))"
      by blast
    show ?thesis
    proof (cases "a' = a")
      case True
      with assms(1) Json have "b \<le> 0" by (auto simp: lookupFailed_def)
      then have "real_of_int b / 100000000 \<le> 0" by (simp add: divide_le_0_iff)
      then show ?thesis using True c by (auto dest!: cached_Some)
    next
      case False
      then have "balanceCache (snd (checkBalance fetch now st a')) a = balanceCache st a"
        by (simp add: c)
      from cached_eq [OF this] assms(2) show ?thesis by simp
    qed
  next
    case NetworkFailure
    then have "lookupFailed (fetch a')" by (simp add: lookupFailed_def)
    from checkBalance_failed [where fetch = fetch and a = a', OF None this]
    have "balanceCache (snd (checkBalance fetch now st a')) = balanceCache st" by simp
    from cached_cong [OF this] assms(2) show ?thesis by simp
  next
    case (Status code)
    then have "lookupFailed (fetch a')" by (simp add: lookupFailed_def)
    from checkBalance_failed [where fetch = fetch and a = a', OF None this]
    have "balanceCache (snd (checkBalance fetch now st a')) = balanceCache st" by simp
    from cached_cong [OF this] assms(2) show ?thesis by simp
  next
    case BadJson
    then have "lookupFailed (fetch a')" by (simp add: lookupFailed_def)
    from checkBalance_failed [where fetch = fetch and a = a', OF None this]
    have "balanceCache (snd (checkBalance fetch now st a')) = balanceCache st" by simp
    from cached_cong [OF this] assms(2) show ?thesis by simp
  qed
qed

lemma checkAllBalances_result:
  "fst (checkAllBalances fetch now st key) =
     key\<lparr>balances :=
       (let r1 = checkBalance fetch now st (legacy (addresses key));
            r2 = checkBalance fetch now (snd r1) (segwit (addresses key));
            r3 = checkBalance fetch now (snd r2) (nativeSegwit (addresses key))
        in \<lparr>legacyBalance = (if fst r1 > 0 then Some (fst r1) else None),
            segwitBalance = (if fst r2 > 0 then Some (fst r2) else None),
            nativeSegwitBalance = (if fst r3 > 0 then Some (fst r3) else None)\<rparr>)\<rparr>"
  by (simp add: checkAllBalances_def Let_def split: prod.splits)

lemma checkAllBalances_null:
  assumes "\<forall>v. cached now st a = Some v \<longrightarrow> v \<le> 0"
    and "lookupFailed (fetch a) \<or> (\<exists>b. fetch a = Json b \<and> b \<le> 0)"
  shows "(legacy (addresses key) = a \<longrightarrow>
            legacyBalance (balances (fst (checkAllBalances fetch now st key))) = None) \<and>
         (segwit (addresses key) = a \<longrightarrow>
            segwitBalance (balances (fst (checkAllBalances fetch now st key))) = None) \<and>
         (nativeSegwit (addresses key) = a \<longrightarrow>
            nativeSegwitBalance (balances (fst (checkAllBalances fetch now st key))) = None)"
proof -
  let ?r1 = "checkBalance fetch now st (legacy (addresses key))"
  let ?r2 = "checkBalance fetch now (snd ?r1) (segwit (addresses key))"
  let ?r3 = "checkBalance fetch now (snd ?r2) (nativeSegwit (addresses key))"
  have i1: "\<forall>v. cached now (snd ?r1) a = Some v \<longrightarrow> v \<le> 0"
    by (rule checkBalance_keeps [where fetch = fetch and a = a, OF assms(2,1)])
  have i2: "\<forall>v. cached now (snd ?r2) a = Some v \<longrightarrow> v \<le> 0"
    by (rule checkBalance_keeps [where fetch = fetch and a = a, OF assms(2) i1])
  have "legacy (addresses key) = a \<longrightarrow> fst ?r1 \<le> 0"
    using checkBalance_nonpos [where fetch = fetch and a = a, OF assms(2,1)] by auto
  moreover have "segwit (addresses key) = a \<longrightarrow> fst ?r2 \<le> 0"
    using checkBalance_nonpos [where fetch = fetch and a = a, OF assms(2) i1] by auto
  moreover have "nativeSegwit (addresses key) = a \<longrightarrow> fst ?r3 \<le> 0"
    using checkBalance_nonpos [where fetch = fetch and a = a, OF assms(2) i2] by auto
  ultimately show ?thesis
    by (auto simp: checkAllBalances_result Let_def)
qed


text \<open>
  C7. The claim: when a lookup fails, the balances of the returned record are what they
  were before the call. \<open>checkAllBalances\<close> has a \<open>catch\<close> for that, which returns the
  key it was given; but \<open>checkBalance\<close> has already caught the error and returned 0, so
  the \<open>catch\<close> is never reached and the 0 is stored as \<open>null\<close>. The record below got its
  legacy balance of 1 from a lookup at time 0, cached then; 400 seconds later the cache
  entry has expired and all three lookups are rejected by the network: the legacy
  balance comes back as \<open>null\<close>.
\<close>

theorem checkAllBalances_failure_nulls_balance:
  "balances (fst (checkAllBalances (\<lambda>address. NetworkFailure) 400000
      \<lparr>lastApiCall = 0, balanceCache = [''1A'' \<mapsto> (1, 0)]\<rparr>
      \<lparr>key_id = ''key-0'', privateKeyHex = ''00'', privateKeyWIF = ''K'', publicKey = ''02'',
       addresses = \<lparr>legacy = ''1A'', segwit = ''3B'', nativeSegwit = ''bc1q''\<rparr>,
       balances = \<lparr>legacyBalance = Some 1, segwitBalance = None, nativeSegwitBalance = None\<rparr>,
       timestamp = 0, index = 0\<rparr>))
   = \<lparr>legacyBalance = None, segwitBalance = None, nativeSegwitBalance = None\<rparr> \<and>
   \<lparr>legacyBalance = None, segwitBalance = None, nativeSegwitBalance = None\<rparr> \<noteq>
   \<lparr>legacyBalance = Some 1, segwitBalance = None, nativeSegwitBalance = None\<rparr>"
  by (simp add: checkAllBalances_def checkBalance_def checkBalance_try_def cached_def
      CACHE_DURATION_def API_RATE_LIMIT_def Let_def)

text \<open>
  C8. For every record and each of its three addresses: if the address is not served
  from the cache and its lookup succeeds with \<open>final_balance \<le> 0\<close>, the balance of that
  address in the returned record is \<open>null\<close>. And whatever the lookups do, a balance in
  the returned record is either \<open>null\<close> or a positive number, never 0.
\<close>

theorem checkAllBalances_normalizes:
  "(cached now st (legacy (addresses key)) = None \<and>
      fetch (legacy (addresses key)) = Json b1 \<and> b1 \<le> 0
      \<longrightarrow> legacyBalance (balances (fst (checkAllBalances fetch now st key))) = None) \<and>
   (cached now st (segwit (addresses key)) = None \<and>
      fetch (segwit (addresses key)) = Json b2 \<and> b2 \<le> 0
      \<longrightarrow> segwitBalance (balances (fst (checkAllBalances fetch now st key))) = None) \<and>
   (cached now st (nativeSegwit (addresses key)) = None \<and>
      fetch (nativeSegwit (addresses key)) = Json b3 \<and> b3 \<le> 0
      \<longrightarrow> nativeSegwitBalance (balances (fst (checkAllBalances fetch now st key))) = None) \<and>
   (\<forall>v. legacyBalance (balances (fst (checkAllBalances fetch now st key))) = Some v \<longrightarrow> 0 < v) \<and>
   (\<forall>v. segwitBalance (balances (fst (checkAllBalances fetch now st key))) = Some v \<longrightarrow> 0 < v) \<and>
   (\<forall>v. nativeSegwitBalance (balances (fst (checkAllBalances fetch now st key))) = Some v
      \<longrightarrow> 0 < v)"
proof -
  have miss: "\<And>a. cached now st a = None \<Longrightarrow> \<forall>v. cached now st a = Some v \<longrightarrow> v \<le> 0"
    by simp
  have zero: "\<And>a b. fetch a = Json b \<and> b \<le> 0 \<Longrightarrow>
      lookupFailed (fetch a) \<or> (\<exists>b. fetch a = Json b \<and> b \<le> 0)"
    by blast
  have pos: "(\<forall>v. legacyBalance (balances (fst (checkAllBalances fetch now st key))) = Some v \<longrightarrow> 0 < v) \<and>
   (\<forall>v. segwitBalance (balances (fst (checkAllBalances fetch now st key))) = Some v \<longrightarrow> 0 < v) \<and>
   (\<forall>v. nativeSegwitBalance (balances (fst (checkAllBalances fetch now st key))) = Some v
      \<longrightarrow> 0 < v)"
    by (simp add: checkAllBalances_result Let_def)
  show ?thesis
    using pos
      checkAllBalances_null [where fetch = fetch and a = "legacy (addresses key)" and key = key,
        OF miss zero [of _ b1]]
      checkAllBalances_null [where fetch = fetch and a = "segwit (addresses key)" and key = key,
        OF miss zero [of _ b2]]
      checkAllBalances_null [where fetch = fetch and a = "nativeSegwit (addresses key)" and key = key,
        OF miss zero [of _ b3]]
    by blast
qed

theorem checkAllBalances_normalizes_witness:
  "cached 0 \<lparr>lastApiCall = 0, balanceCache = Map.empty\<rparr> ''1A'' = None \<and>
   (\<lambda>address. Json 0) ''1A'' = Json 0 \<and> (0::int) \<le> 0 \<and>
   legacyBalance (balances (fst (checkAllBalances (\<lambda>address. Json 0) 0
      \<lparr>lastApiCall = 0, balanceCache = Map.empty\<rparr>
      \<lparr>key_id = ''key-0'', privateKeyHex = ''00'', privateKeyWIF = ''K'', publicKey = ''02'',
       addresses = \<lparr>legacy = ''1A'', segwit = ''3B'', nativeSegwit = ''bc1q''\<rparr>,
       balances = \<lparr>legacyBalance = None, segwitBalance = None, nativeSegwitBalance = None\<rparr>,
       timestamp = 0, index = 0\<rparr>))) = None"
proof -
  have c: "cached 0 \<lparr>lastApiCall = 0, balanceCache = Map.empty\<rparr> ''1A'' = None"
    by (simp add: cached_def)
  from c checkAllBalances_normalizes [of 0
      "\<lparr>lastApiCall = 0, balanceCache = Map.empty\<rparr>"
      "\<lparr>key_id = ''key-0'', privateKeyHex = ''00'', privateKeyWIF = ''K'', publicKey = ''02'',
       addresses = \<lparr>legacy = ''1A'', segwit = ''3B'', nativeSegwit = ''bc1q''\<rparr>,
       balances = \<lparr>legacyBalance = None, segwitBalance = None, nativeSegwitBalance = None\<rparr>,
       timestamp = 0, index = 0\<rparr>" "\<lambda>address. Json 0" 0 0 0]
  show ?thesis by simp
qed

section \<open>Search sessions\<close>

declare searchVirtualLoop.simps [simp del]

lemma promiseAll_ok: "\<exists>batch. promiseAll (map (\<lambda>i. generateKeyAtIndex sha256 (clock i) i) js) = Inr batch"
proof (induction js)
  case Nil
  show ?case by simp
next
  case (Cons j js)
  obtain key where "generateKeyAtIndex sha256 (clock j) j = Inr key"
    using generateKeyAtIndex_ok by blast
  with Cons show ?case by auto
qed

lemma scanBatch_aborted: "scanBatch True t batch acc = acc"
  by (cases batch; cases acc) auto

lemma searchVirtualKeys_cancelled:
  "3 \<le> length searchTerm \<Longrightarrow> searchVirtualKeys sha256 clock (\<lambda>k. 0 < k) searchTerm = []"
proof -
  assume len: "3 \<le> length searchTerm"
  let ?t = "toLowerCase searchTerm"
  let ?next = "min SEARCH_BATCH_SIZE 100000"
  obtain batch where
    b: "promiseAll (map (\<lambda>i. generateKeyAtIndex sha256 (clock i) i) [0..<?next]) = Inr batch"
    using promiseAll_ok by blast
  have first: "searchVirtualLoop sha256 clock (\<lambda>k. 0 < k) ?t 0 0 ({}, [], 0) =
      searchVirtualLoop sha256 clock (\<lambda>k. 0 < k) ?t 1 ?next ({}, [], 0)"
    using b by (subst searchVirtualLoop.simps) (simp add: MAX_SEARCH_RESULTS_def scanBatch_aborted Let_def)
  have second: "searchVirtualLoop sha256 clock (\<lambda>k. 0 < k) ?t 1 ?next ({}, [], 0) = []"
    by (subst searchVirtualLoop.simps) simp
  from len first second show ?thesis
    by (simp add: searchVirtualKeys_def)
qed

lemma mapSet_fresh: "k \<notin> fst ` set m \<Longrightarrow> mapSet m k v = m @ [(k, v)]"
  by (induction m) auto

lemma loaded_only:
  "distinct (map key_id ks) \<Longrightarrow> fst ` set m0 \<inter> key_id ` set ks = {} \<Longrightarrow>
   foldl (\<lambda>m key. mapSet m (key_id key) key) m0 ks = m0 @ map (\<lambda>key. (key_id key, key)) ks"
proof (induction ks arbitrary: m0)
  case Nil
  show ?case by simp
next
  case (Cons k ks)
  from Cons.prems(2) have fresh: "key_id k \<notin> fst ` set m0" by auto
  have d: "distinct (map key_id ks)" using Cons.prems(1) by simp
  have disj: "fst ` set (m0 @ [(key_id k, k)]) \<inter> key_id ` set ks = {}"
    using Cons.prems by auto
  from Cons.IH [OF d disj] show ?case
    by (simp add: mapSet_fresh [OF fresh])
qed

lemma combineResults_loaded:
  "distinct (map key_id ks) \<Longrightarrow> combineResults ks [] = sort_key index ks"
  using loaded_only [of ks "[]"] by (simp add: combineResults_def comp_def)

lemma hex_of_first_key:
  "stringIncludes (toLowerCase (bytesToHex (generateFixedPrivateKeyFromIndex 0))) ''426''"
  by code_simp


lemma first_load:
  "distinct (map key_id (keys (loadMore sha256 clock initialKeysState))) \<and>
   map Inr (keys (loadMore sha256 clock initialKeysState)) =
     map (\<lambda>i. generateKeyAtIndex sha256 (clock i) i) [0..<50]"
proof -
  let ?id = "\<lambda>i. ''key-'' @ numberToString i"
  from loadMore_step [of initialKeysState sha256 clock]
  have ids: "map key_id (keys (loadMore sha256 clock initialKeysState)) = map ?id [0..<50]"
    and gen: "map Inr (keys (loadMore sha256 clock initialKeysState)) =
      map (\<lambda>i. generateKeyAtIndex sha256 (clock i) i) [0..<50]"
    by (auto simp: initialKeysState_def)
  have "distinct (map ?id [0..<50])"
    by (simp add: distinct_map inj_on_def numberToString_inj)
  with ids gen show ?thesis by simp
qed

lemma first_key_loaded:
  "generateKeyAtIndex sha256 (clock 0) 0 = Inr k0 \<Longrightarrow>
   k0 \<in> set (keys (loadMore sha256 clock initialKeysState))"
proof -
  assume k0: "generateKeyAtIndex sha256 (clock 0) 0 = Inr k0"
  have "[0..<50] = 0 # [Suc 0..<50]" by (rule upt_conv_Cons) simp
  then have "map (\<lambda>i. generateKeyAtIndex sha256 (clock i) i) [0..<50] =
      Inr k0 # map (\<lambda>i. generateKeyAtIndex sha256 (clock i) i) [Suc 0..<50]"
    by (simp only: list.map k0)
  with first_load [of sha256 clock]
  have "map Inr (keys (loadMore sha256 clock initialKeysState)) =
      Inr k0 # map (\<lambda>i. generateKeyAtIndex sha256 (clock i) i) [Suc 0..<50]"
    by (simp only:)
  then have "(Inr k0 :: error + BitcoinKey) \<in>
      set (map Inr (keys (loadMore sha256 clock initialKeysState)))"
    by (simp only: list.set insertI1)
  then show ?thesis by auto
qed

lemma first_key_matches:
  "generateKeyAtIndex sha256 now 0 = Inr k0 \<Longrightarrow> keyMatches ''426'' k0"
proof -
  assume k0: "generateKeyAtIndex sha256 now 0 = Inr k0"
  have "length (generateFixedPrivateKeyFromIndex 0) \<le> 33"
    by (simp add: length_generateFixedPrivateKeyFromIndex)
  from generateKeyFromPrivateKey_ok [OF this, of sha256 now 0] k0
  have "privateKeyHex k0 = bytesToHex (generateFixedPrivateKeyFromIndex 0)"
    by (auto simp: generateKeyAtIndex_def)
  with hex_of_first_key show ?thesis by (simp add: keyMatches_def)
qed

text \<open>
  C6. The claim: once a search session is superseded, none of its results is surfaced
  as final. The trace below breaks it. The first \<open>loadMore\<close> has filled \<open>keys\<close>; a search
  for \<open>426\<close> starts (the private key of index 0 begins with these digits), and while its
  first batch is awaited a search for \<open>xyz\<close> starts: it aborts the first controller and
  puts its own into the ref. The first call resumes; its signal reads aborted from then
  on, and \<open>searchVirtualKeys\<close> returns no virtual match. Its guard then reads the ref,
  finds the controller of \<open>xyz\<close>, which is not aborted, and stores the loaded matches of
  \<open>426\<close> as the results, with \<open>searchCompleted\<close> set and \<open>searchLoading\<close> cleared.
\<close>

theorem superseded_search_surfaces:
  "\<exists>k0. generateKeyAtIndex sha256 (clock 0) 0 = Inr k0 \<and>
     (let loaded = keys (loadMore sha256 clock initialKeysState)
      in case performSearch_begin ''426'' loaded initialSearchState of (s1, a) \<Rightarrow>
         case performSearch_begin ''xyz'' loaded s1 of (s2, b) \<Rightarrow>
           let virtualMatches = searchVirtualKeys sha256 clock (\<lambda>k. 0 < k) ''426'';
               s3 = performSearch_end (the a) virtualMatches s2
           in searchAbortController s3 = Some (signal (the b)) \<and>
              signal (the a) \<noteq> signal (the b) \<and>
              controllers s3 ! signal (the a) \<and>
              \<not> controllers s3 ! signal (the b) \<and>
              virtualMatches = [] \<and>
              searchResults s3 = sort_key index (filter (keyMatches ''426'') loaded) \<and>
              k0 \<in> set (searchResults s3) \<and>
              searchCompleted s3 \<and> \<not> searchLoading s3)"
proof -
  let ?loaded = "keys (loadMore sha256 clock initialKeysState)"
  let ?hits = "filter (keyMatches ''426'') ?loaded"
  obtain k0 where k0: "generateKeyAtIndex sha256 (clock 0) 0 = Inr k0"
    using generateKeyAtIndex_ok by blast
  have "k0 \<in> set ?hits"
    using first_key_loaded [where clock = clock, OF k0] first_key_matches [OF k0] by simp
  then have member: "k0 \<in> set (sort_key index ?hits)" by simp
  have "distinct (map key_id ?hits)"
    using first_load [of sha256 clock] by (simp add: distinct_map_filter)
  then have combined: "combineResults ?hits [] = sort_key index ?hits"
    by (rule combineResults_loaded)
  have vm: "searchVirtualKeys sha256 clock (\<lambda>k. 0 < k) ''426'' = []"
    by (rule searchVirtualKeys_cancelled) simp
  have lower: "toLowerCase ''426'' = ''426''"
    by (simp add: toLowerCase_def)
  let ?S1 = "\<lparr>controllers = [False], searchAbortController = Some 0, searchResults = [],
      searchLoading = True, searchCompleted = False\<rparr>"
  let ?A = "\<lparr>signal = 0, loadedMatches = ?hits\<rparr>"
  let ?S2 = "\<lparr>controllers = [True, False], searchAbortController = Some (Suc 0),
      searchResults = [], searchLoading = True, searchCompleted = False\<rparr>"
  let ?B = "\<lparr>signal = Suc 0, loadedMatches = filter (keyMatches ''xyz'') ?loaded\<rparr>"
  let ?S3 = "\<lparr>controllers = [True, False], searchAbortController = Some (Suc 0),
      searchResults = sort_key index ?hits, searchLoading = False, searchCompleted = True\<rparr>"
  have b1: "performSearch_begin ''426'' ?loaded initialSearchState = (?S1, Some ?A)"
    by (simp add: performSearch_begin_def abortCurrent_def initialSearchState_def lower)
  have lower2: "toLowerCase ''xyz'' = ''xyz''"
    by (simp add: toLowerCase_def)
  have b2: "performSearch_begin ''xyz'' ?loaded ?S1 = (?S2, Some ?B)"
    by (simp add: performSearch_begin_def abortCurrent_def lower2)
  have e: "performSearch_end ?A [] ?S2 = ?S3"
    by (simp add: performSearch_end_def combined)
  have "k0 \<in> set (searchResults ?S3)"
    using member by simp
  then have "let loaded = ?loaded
      in case performSearch_begin ''426'' loaded initialSearchState of (s1, a) \<Rightarrow>
         case performSearch_begin ''xyz'' loaded s1 of (s2, b) \<Rightarrow>
           let virtualMatches = searchVirtualKeys sha256 clock (\<lambda>k. 0 < k) ''426'';
               s3 = performSearch_end (the a) virtualMatches s2
           in searchAbortController s3 = Some (signal (the b)) \<and>
              signal (the a) \<noteq> signal (the b) \<and>
              controllers s3 ! signal (the a) \<and>
              \<not> controllers s3 ! signal (the b) \<and>
              virtualMatches = [] \<and>
              searchResults s3 = sort_key index (filter (keyMatches ''426'') loaded) \<and>
              k0 \<in> set (searchResults s3) \<and>
              searchCompleted s3 \<and> \<not> searchLoading s3"
    unfolding Let_def b1 b2 vm prod.case option.sel e by simp
  with k0 show ?thesis by blast
qed

end
